theory Spec2Isabelle
  imports Main "HOL-Library.Word"
begin

unbundle bit_operations_syntax

section \<open>Data model of the allocator (allocator.h, allocator.cpp)\<close>

text \<open>
  The target is LP64 Linux: \<open>size_t\<close>, \<open>uintptr_t\<close> and every pointer are 64-bit
  words, \<open>sizeof(BlockHeader) = 8\<close> and \<open>sizeof(Span) = 40\<close>. A pointer is its
  address; \<open>nullptr\<close> is the address 0. The two \<open>int\<close> counters (\<open>list_lengths\<close>,
  \<open>count\<close>) are mathematical integers: signed overflow is undefined in C++ and needs
  more than \<open>2^31\<close> blocks on one list.
\<close>

type_synonym size_t = "64 word"
type_synonym addr = "64 word"

definition PAGE_SHIFT :: nat where
  "PAGE_SHIFT = 12"

definition SIZE_CLASSES :: "size_t list" where
  "SIZE_CLASSES = [8, 16, 32, 64, 128, 256, 512, 1024]"

definition MAX_SMALL_ALLOC_SIZE :: size_t where
  "MAX_SMALL_ALLOC_SIZE = 1024"

definition SCAVENGE_THRESHOLD :: int where
  "SCAVENGE_THRESHOLD = 128"

definition sizeof_BlockHeader :: size_t where
  "sizeof_BlockHeader = 8"

definition sizeof_Span :: nat where
  "sizeof_Span = 40"

definition sizeof_span_memory :: nat where
  "sizeof_span_memory = 4096 * 10"

text \<open>
  A \<open>Span*\<close> always points into the static array \<open>span_memory\<close>; it is modelled by its
  byte offset into that array, and \<open>nullptr\<close> by \<open>None\<close>.
\<close>

type_synonym span_ptr = nat

record Span =
  start_page_id :: size_t
  num_pages :: size_t
  next_span :: "span_ptr option"
  prev_span :: "span_ptr option"
  is_free :: bool

record ThreadCache =
  free_lists :: "nat \<Rightarrow> addr"
  list_lengths :: "nat \<Rightarrow> int"

record TransferCache =
  tc_list :: addr
  tc_count :: int

text \<open>
  The process-wide state: the store, read and written in 8-byte units at the address of
  a header (\<open>BlockHeader::size\<close> and \<open>FreeBlockHeader::next\<close> share that address);
  the page ids the operating system currently has mapped for the page heap; the bump
  pool of span descriptors; the page heap's \<open>page_map\<close>; the eight transfer caches.
  The thread cache \<open>my_cache\<close> is thread-local and is passed separately.
\<close>

record allocator =
  mem :: "addr \<Rightarrow> 64 word"
  mapped :: "64 word set"
  span_offset :: nat
  spans :: "span_ptr \<Rightarrow> Span"
  page_map :: "64 word \<rightharpoonup> span_ptr"
  transfer_caches :: "nat \<Rightarrow> TransferCache"

section \<open>The size-class table\<close>

function getSizeClassIndex_from :: "nat \<Rightarrow> size_t \<Rightarrow> nat" where
  "getSizeClassIndex_from i sz =
     (if i < 8 then (if sz \<le> SIZE_CLASSES ! i then i else getSizeClassIndex_from (Suc i) sz)
      else 8)"
  by pat_completeness auto
termination
  by (relation "measure (\<lambda>(i, sz). 8 - i)") auto

definition getSizeClassIndex :: "size_t \<Rightarrow> nat" where
  "getSizeClassIndex sz = getSizeClassIndex_from 0 sz"

definition getClassSizeFromIndex :: "nat \<Rightarrow> size_t" where
  "getClassSizeFromIndex index = (if index \<ge> 8 then 0 else SIZE_CLASSES ! index)"

section \<open>The operating system: \<open>mmap\<close> and \<open>munmap\<close>\<close>

text \<open>
  The pages of a byte range: \<open>len\<close> bytes starting at a page-aligned address cover
  the page ids \<open>a >> 12, a >> 12 + 1, ...\<close>, one for each started page.
\<close>

definition pages_of :: "addr \<Rightarrow> size_t \<Rightarrow> 64 word set" where
  "pages_of a len = (\<lambda>i. drop_bit PAGE_SHIFT a + of_nat i) ` {0 ..< (unat len + 4095) div 4096}"

text \<open>
  \<open>mmap(nullptr, len, ..., MAP_PRIVATE | MAP_ANONYMOUS, -1, 0)\<close>. Where the kernel places
  the mapping is its choice, so the outcome \<open>r\<close> of the call is an input of the model:
  \<open>None\<close> for \<open>MAP_FAILED\<close>, \<open>Some a\<close> for a mapping at address \<open>a\<close>. A length of 0
  is refused by the kernel (EINVAL). The contents of a fresh mapping are not modelled:
  the allocator writes every header before it reads it.
\<close>

definition mmap :: "allocator \<Rightarrow> size_t \<Rightarrow> addr option \<Rightarrow> addr option \<times> allocator" where
  "mmap s len r =
     (case r of
        None \<Rightarrow> (None, s)
      | Some a \<Rightarrow>
          if len = 0 then (None, s)
          else (Some a, s\<lparr>mapped := mapped s \<union> pages_of a len\<rparr>))"

definition munmap :: "allocator \<Rightarrow> addr \<Rightarrow> size_t \<Rightarrow> allocator" where
  "munmap s a len = s\<lparr>mapped := mapped s - pages_of a len\<rparr>"

text \<open>
  What the kernel guarantees about a successful \<open>mmap\<close> without \<open>MAP_FIXED\<close>: the
  address is page-aligned and not null, the range does not wrap around the address
  space, and it overlaps no page that is still mapped.
\<close>

definition mmap_result_ok :: "allocator \<Rightarrow> size_t \<Rightarrow> addr option \<Rightarrow> bool" where
  "mmap_result_ok s len r =
     (case r of
        None \<Rightarrow> True
      | Some a \<Rightarrow> a \<noteq> 0 \<and> a AND 4095 = 0 \<and> unat a + unat len \<le> 2 ^ 64
                  \<and> pages_of a len \<inter> mapped s = {})"

section \<open>The span-descriptor pool\<close>

definition allocate_span_memory :: "allocator \<Rightarrow> nat \<Rightarrow> span_ptr option \<times> allocator" where
  "allocate_span_memory s sz =
     (if span_offset s + sz > sizeof_span_memory then (None, s)
      else (Some (span_offset s), s\<lparr>span_offset := span_offset s + sz\<rparr>))"

section \<open>PageHeap\<close>

definition lookupSpan :: "allocator \<Rightarrow> addr \<Rightarrow> span_ptr option" where
  "lookupSpan s ptr = (let page_id = drop_bit PAGE_SHIFT ptr in page_map s page_id)"

text \<open>The loop \<open>for (i = 0; i < num_pages; ++i) page_map[start_page_id + i] = span\<close>.\<close>

primrec record_pages :: "(64 word \<rightharpoonup> span_ptr) \<Rightarrow> size_t \<Rightarrow> span_ptr \<Rightarrow> nat \<Rightarrow> (64 word \<rightharpoonup> span_ptr)" where
  "record_pages pm start sp 0 = pm"
| "record_pages pm start sp (Suc n) = (record_pages pm start sp n)(start + of_nat n \<mapsto> sp)"

text \<open>The loop \<open>for (i = 0; i < num_pages; ++i) page_map.erase(start_page_id + i)\<close>.\<close>

primrec erase_pages :: "(64 word \<rightharpoonup> span_ptr) \<Rightarrow> size_t \<Rightarrow> nat \<Rightarrow> (64 word \<rightharpoonup> span_ptr)" where
  "erase_pages pm start 0 = pm"
| "erase_pages pm start (Suc n) = (erase_pages pm start n)(start + of_nat n := None)"

definition allocateSpan :: "allocator \<Rightarrow> size_t \<Rightarrow> addr option \<Rightarrow> span_ptr option \<times> allocator" where
  "allocateSpan s n r =
     (let total_size = push_bit PAGE_SHIFT n;
          (new_mem, s1) = mmap s total_size r
      in case new_mem of
           None \<Rightarrow> (None, s1)
         | Some a \<Rightarrow>
             (case allocate_span_memory s1 sizeof_Span of
                (None, s2) \<Rightarrow> (None, munmap s2 a total_size)
              | (Some span, s2) \<Rightarrow>
                  let d = \<lparr>start_page_id = drop_bit PAGE_SHIFT a, num_pages = n,
                           next_span = None, prev_span = None, is_free = False\<rparr>;
                      s3 = s2\<lparr>spans := (spans s2)(span := d)\<rparr>
                  in (Some span,
                      s3\<lparr>page_map := record_pages (page_map s3) (start_page_id d) span (unat n)\<rparr>)))"

definition deallocateSpan :: "allocator \<Rightarrow> span_ptr \<Rightarrow> allocator" where
  "deallocateSpan s span =
     (let d = spans s span;
          s1 = munmap s (push_bit PAGE_SHIFT (start_page_id d)) (push_bit PAGE_SHIFT (num_pages d))
      in s1\<lparr>page_map := erase_pages (page_map s1) (start_page_id d) (unat (num_pages d))\<rparr>)"

section \<open>Main allocator logic\<close>

text \<open>
  The carving loop of \<open>fetchFromTransferCache\<close>: block \<open>i\<close> lies at
  \<open>start + i * actual_block_size\<close>; its \<open>next\<close> field receives the current list head
  and the block becomes the head. The loop state is the store and the head.
\<close>

definition carve_step :: "addr \<Rightarrow> size_t \<Rightarrow> (addr \<Rightarrow> 64 word) \<times> addr \<Rightarrow> nat \<Rightarrow> (addr \<Rightarrow> 64 word) \<times> addr" where
  "carve_step start actual_block_size st i =
     (let block_ptr = start + of_nat i * actual_block_size
      in ((fst st)(block_ptr := snd st), block_ptr))"

definition carve :: "addr \<Rightarrow> size_t \<Rightarrow> nat \<Rightarrow> (addr \<Rightarrow> 64 word) \<times> addr \<Rightarrow> (addr \<Rightarrow> 64 word) \<times> addr" where
  "carve start actual_block_size n st = foldl (carve_step start actual_block_size) st [0 ..< n]"

text \<open>
  The tail search shared by both transfer directions:
  \<open>for (i = 1; i < limit && tail && tail->next; ++i) tail = tail->next\<close> in
  \<open>fetchFromTransferCache\<close> and
  \<open>while (tail && tail->next && count < limit) { tail = tail->next; count++; }\<close> in
  \<open>releaseToTransferCache\<close>. \<open>tail->next\<close> is read only when \<open>tail\<close> is not null.
\<close>

function find_tail :: "(addr \<Rightarrow> 64 word) \<Rightarrow> addr \<Rightarrow> int \<Rightarrow> int \<Rightarrow> addr" where
  "find_tail m tail i limit =
     (if i < limit \<and> tail \<noteq> 0 \<and> m tail \<noteq> 0 then find_tail m (m tail) (i + 1) limit else tail)"
  by pat_completeness auto
termination
  by (relation "measure (\<lambda>(m, tail, i, limit). nat (limit - i))") auto

text \<open>Lines 119 to 136: move up to 32 blocks from the central list to the thread cache.\<close>

definition transfer_blocks :: "allocator \<Rightarrow> ThreadCache \<Rightarrow> nat \<Rightarrow> allocator \<times> ThreadCache" where
  "transfer_blocks s my_cache class_index =
     (let tc = transfer_caches s class_index;
          blocks_to_transfer = min (tc_count tc) 32;
          head = tc_list tc;
          tail = find_tail (mem s) head 1 blocks_to_transfer
      in if tail \<noteq> 0 then
           (s\<lparr>mem := (mem s)(tail := 0),
              transfer_caches := (transfer_caches s)(class_index :=
                tc\<lparr>tc_list := mem s tail, tc_count := tc_count tc - blocks_to_transfer\<rparr>)\<rparr>,
            my_cache\<lparr>free_lists := (free_lists my_cache)(class_index := head),
                     list_lengths := (list_lengths my_cache)(class_index := blocks_to_transfer)\<rparr>)
         else (s, my_cache))"

definition fetchFromTransferCache ::
  "allocator \<Rightarrow> ThreadCache \<Rightarrow> nat \<Rightarrow> addr option \<Rightarrow> allocator \<times> ThreadCache" where
  "fetchFromTransferCache s my_cache class_index r =
     (if class_index \<ge> 8 then (s, my_cache)
      else
        let tc = transfer_caches s class_index
        in if tc_count tc = 0 then
             let block_size = getClassSizeFromIndex class_index
             in if block_size = 0 then (s, my_cache)
                else
                  let actual_block_size = block_size + sizeof_BlockHeader;
                      n0 = 4096 div actual_block_size;
                      num_blocks_to_fetch = (if n0 = 0 then 1 else n0);
                      (span, s1) = allocateSpan s 1 r
                  in case span of
                       None \<Rightarrow> (s1, my_cache)
                     | Some sp \<Rightarrow>
                         let start = push_bit PAGE_SHIFT (start_page_id (spans s1 sp));
                             (m, head) = carve start actual_block_size (unat num_blocks_to_fetch)
                                           (mem s1, tc_list tc);
                             s2 = s1\<lparr>mem := m,
                                     transfer_caches := (transfer_caches s1)(class_index :=
                                       tc\<lparr>tc_list := head,
                                          tc_count := tc_count tc + int (unat num_blocks_to_fetch)\<rparr>)\<rparr>
                         in transfer_blocks s2 my_cache class_index
           else transfer_blocks s my_cache class_index)"

definition releaseToTransferCache :: "allocator \<Rightarrow> ThreadCache \<Rightarrow> nat \<Rightarrow> allocator \<times> ThreadCache" where
  "releaseToTransferCache s my_cache class_index =
     (if class_index \<ge> 8 \<or> list_lengths my_cache class_index = 0 then (s, my_cache)
      else
        let tc = transfer_caches s class_index;
            head = free_lists my_cache class_index;
            tail = find_tail (mem s) head 1 (list_lengths my_cache class_index);
            m = (if tail \<noteq> 0 then (mem s)(tail := tc_list tc) else mem s)
        in (s\<lparr>mem := m,
              transfer_caches := (transfer_caches s)(class_index :=
                tc\<lparr>tc_list := head,
                   tc_count := tc_count tc + list_lengths my_cache class_index\<rparr>)\<rparr>,
            my_cache\<lparr>free_lists := (free_lists my_cache)(class_index := 0),
                     list_lengths := (list_lengths my_cache)(class_index := 0)\<rparr>))"

text \<open>
  \<open>allocate\<close> makes at most one \<open>mmap\<close> call; \<open>r\<close> is its outcome. The result is the
  new global state, the new thread cache and the returned pointer.
\<close>

definition allocate ::
  "allocator \<Rightarrow> ThreadCache \<Rightarrow> size_t \<Rightarrow> addr option \<Rightarrow> allocator \<times> ThreadCache \<times> addr" where
  "allocate s my_cache sz r =
     (if sz = 0 then (s, my_cache, 0)
      else if sz > MAX_SMALL_ALLOC_SIZE then
        let total_size = sz + sizeof_BlockHeader;
            n = drop_bit PAGE_SHIFT (total_size + 4095);
            (span, s1) = allocateSpan s n r
        in case span of
             None \<Rightarrow> (s1, my_cache, 0)
           | Some sp \<Rightarrow>
               let header = push_bit PAGE_SHIFT (start_page_id (spans s1 sp))
               in (s1\<lparr>mem := (mem s1)(header := sz)\<rparr>, my_cache, header + sizeof_BlockHeader)
      else
        let index = getSizeClassIndex sz
        in if index \<ge> 8 then (s, my_cache, 0)
           else
             let (s1, c1) = (if free_lists my_cache index = 0
                             then fetchFromTransferCache s my_cache index r
                             else (s, my_cache))
             in if free_lists c1 index = 0 then (s1, c1, 0)
                else
                  let block = free_lists c1 index;
                      c2 = c1\<lparr>free_lists := (free_lists c1)(index := mem s1 block),
                              list_lengths := (list_lengths c1)(index := list_lengths c1 index - 1)\<rparr>;
                      header = block
                  in (s1\<lparr>mem := (mem s1)(header := getClassSizeFromIndex index)\<rparr>, c2,
                      header + sizeof_BlockHeader))"

definition deallocate :: "allocator \<Rightarrow> ThreadCache \<Rightarrow> addr \<Rightarrow> allocator \<times> ThreadCache" where
  "deallocate s my_cache ptr =
     (if ptr = 0 then (s, my_cache)
      else
        let header = ptr - sizeof_BlockHeader;
            sz = mem s header
        in if sz > MAX_SMALL_ALLOC_SIZE then
             (case lookupSpan s header of
                None \<Rightarrow> (s, my_cache)
              | Some span \<Rightarrow> (deallocateSpan s span, my_cache))
           else
             let index = getSizeClassIndex sz
             in if index \<ge> 8 then (s, my_cache)
                else
                  let block = header;
                      s1 = s\<lparr>mem := (mem s)(block := free_lists my_cache index)\<rparr>;
                      c1 = my_cache\<lparr>free_lists := (free_lists my_cache)(index := block),
                                    list_lengths := (list_lengths my_cache)(index := list_lengths my_cache index + 1)\<rparr>
                  in if list_lengths c1 index > SCAVENGE_THRESHOLD
                     then releaseToTransferCache s1 c1 index
                     else (s1, c1))"

text \<open>The state of a freshly started process, before any allocation.\<close>

definition initial_cache :: ThreadCache where
  "initial_cache = \<lparr>free_lists = (\<lambda>_. 0), list_lengths = (\<lambda>_. 0)\<rparr>"

definition initial_allocator :: "(addr \<Rightarrow> 64 word) \<Rightarrow> allocator" where
  "initial_allocator m =
     \<lparr>mem = m, mapped = {}, span_offset = 0,
      spans = (\<lambda>_. \<lparr>start_page_id = 0, num_pages = 0, next_span = None, prev_span = None, is_free = True\<rparr>),
      page_map = Map.empty,
      transfer_caches = (\<lambda>_. \<lparr>tc_list = 0, tc_count = 0\<rparr>)\<rparr>"

text \<open>The size-class scan on the numeric value of the size (used in proofs only).\<close>

definition class_of_nat :: "nat \<Rightarrow> nat" where
  "class_of_nat n =
     (if n \<le> 8 then 0 else if n \<le> 16 then 1 else if n \<le> 32 then 2 else if n \<le> 64 then 3
      else if n \<le> 128 then 4 else if n \<le> 256 then 5 else if n \<le> 512 then 6
      else if n \<le> 1024 then 7 else 8)"

section \<open>Notions of the specification\<close>

text \<open>The page ids a span descriptor covers.\<close>

definition span_pages :: "Span \<Rightarrow> 64 word set" where
  "span_pages d = (\<lambda>i. start_page_id d + of_nat i) ` {0 ..< unat (num_pages d)}"

text \<open>A sequence of \<open>deallocate\<close> calls by one thread, with nothing in between.\<close>

fun deallocate_all :: "allocator \<Rightarrow> ThreadCache \<Rightarrow> addr list \<Rightarrow> allocator \<times> ThreadCache" where
  "deallocate_all s my_cache [] = (s, my_cache)"
| "deallocate_all s my_cache (ptr # ptrs) =
     (case deallocate s my_cache ptr of (s', c') \<Rightarrow> deallocate_all s' c' ptrs)"

text \<open>
  A concrete scavenging run: every header reads 8 (class index 0), and the 129 blocks
  lie 16 bytes apart from address 4096 on.
\<close>

definition scavenge_store :: "addr \<Rightarrow> 64 word" where
  "scavenge_store x = 8"

definition scavenge_block :: "nat \<Rightarrow> addr" where
  "scavenge_block i = 4104 + 16 * of_nat i"

definition scavenge_ptrs :: "addr list" where
  "scavenge_ptrs = map scavenge_block [0 ..< 129]"

text \<open>
  Runs of the page heap. The code keeps no record of which spans are live (\<open>is_free\<close>
  is never set again), so a run carries the set of live span descriptors along: a
  successful \<open>allocateSpan\<close> adds its result, \<open>deallocateSpan\<close> removes its argument.
\<close>

datatype heap_op = AllocateSpan size_t "addr option" | DeallocateSpan span_ptr

fun heap_step :: "allocator \<times> span_ptr set \<Rightarrow> heap_op \<Rightarrow> allocator \<times> span_ptr set" where
  "heap_step (s, live) (AllocateSpan n r) =
     (case allocateSpan s n r of
        (None, s') \<Rightarrow> (s', live)
      | (Some span, s') \<Rightarrow> (s', insert span live))"
| "heap_step (s, live) (DeallocateSpan span) = (deallocateSpan s span, live - {span})"

text \<open>
  What a run may contain: page counts below \<open>2^52\<close> (both callers pass such counts:
  \<open>fetchFromTransferCache\<close> passes 1 and \<open>allocate\<close> a 64-bit value shifted right by
  12), answers of \<open>mmap\<close> that the kernel can give, and \<open>deallocateSpan\<close> only of a
  live span.
\<close>

fun op_admissible :: "allocator \<times> span_ptr set \<Rightarrow> heap_op \<Rightarrow> bool" where
  "op_admissible (s, live) (AllocateSpan n r) =
     (unat n < 2 ^ 52 \<and> mmap_result_ok s (push_bit PAGE_SHIFT n) r)"
| "op_admissible (s, live) (DeallocateSpan span) = (span \<in> live)"

fun run_admissible :: "allocator \<times> span_ptr set \<Rightarrow> heap_op list \<Rightarrow> bool" where
  "run_admissible st [] = True"
| "run_admissible st (x # xs) = (op_admissible st x \<and> run_admissible (heap_step st x) xs)"

text \<open>
  The claimed invariant: distinct live spans share no page, and the index holds for a
  page id exactly the live span that covers it.
\<close>

definition page_index_inv :: "allocator \<times> span_ptr set \<Rightarrow> bool" where
  "page_index_inv st =
     (case st of (s, live) \<Rightarrow>
        (\<forall>a \<in> live. \<forall>b \<in> live. a \<noteq> b \<longrightarrow> span_pages (spans s a) \<inter> span_pages (spans s b) = {})
        \<and> (\<forall>p span. page_map s p = Some span \<longleftrightarrow> span \<in> live \<and> p \<in> span_pages (spans s span)))"

text \<open>
  What the induction needs besides: live descriptors lie below the bump pointer, their
  page numbers fit in 52 bits, and the pages the kernel has mapped are those of the
  live spans.
\<close>

definition page_heap_inv :: "allocator \<times> span_ptr set \<Rightarrow> bool" where
  "page_heap_inv st =
     (case st of (s, live) \<Rightarrow>
        page_index_inv (s, live)
        \<and> (\<forall>a \<in> live. a < span_offset s
              \<and> unat (start_page_id (spans s a)) < 2 ^ 52 \<and> unat (num_pages (spans s a)) < 2 ^ 52)
        \<and> mapped s = (\<Union>a \<in> live. span_pages (spans s a)))"

text \<open>
  A concrete run of the page heap: a two-page span, a one-page span, the release of
  the first, a refused mapping, and a new span on a page the first one had covered.
\<close>

definition example_run :: "heap_op list" where
  "example_run =
     [AllocateSpan 2 (Some 8192), AllocateSpan 1 (Some 4096), DeallocateSpan 0,
      AllocateSpan 1 None, AllocateSpan 1 (Some 8192)]"

text \<open>
  Free lists in the store. \<open>chain m p xs\<close>: following the \<open>next\<close> fields from \<open>p\<close>
  visits exactly the blocks \<open>xs\<close>, in this order, and then reaches null. \<open>walk\<close>
  reads off the first \<open>n\<close> blocks, and \<open>has_length m p n\<close> says that the list from
  \<open>p\<close> reaches null after exactly \<open>n\<close> blocks.
\<close>

primrec chain :: "(addr \<Rightarrow> 64 word) \<Rightarrow> addr \<Rightarrow> addr list \<Rightarrow> bool" where
  "chain m p [] = (p = 0)"
| "chain m p (x # xs) = (p = x \<and> p \<noteq> 0 \<and> chain m (m p) xs)"

primrec walk :: "(addr \<Rightarrow> 64 word) \<Rightarrow> addr \<Rightarrow> nat \<Rightarrow> addr list" where
  "walk m p 0 = []"
| "walk m p (Suc n) = p # walk m (m p) n"

primrec has_length :: "(addr \<Rightarrow> 64 word) \<Rightarrow> addr \<Rightarrow> nat \<Rightarrow> bool" where
  "has_length m p 0 = (p = 0)"
| "has_length m p (Suc n) = (p \<noteq> 0 \<and> has_length m (m p) n)"

text \<open>The address of block \<open>i\<close> of a carved page (line 111).\<close>

definition block_at :: "addr \<Rightarrow> size_t \<Rightarrow> nat \<Rightarrow> addr" where
  "block_at start actual_block_size i = start + of_nat i * actual_block_size"

text \<open>
  The transfer-cache invariant. \<open>count_ok\<close> is the claimed equality for one cache:
  the list from \<open>tc_list\<close> reaches null after exactly \<open>tc_count\<close> blocks.
  \<open>central_blocks\<close> are those blocks. \<open>transfer_inv\<close> adds what makes the equality
  inductive: the blocks lie on pages that are mapped, and the lists of different
  classes share no block.
\<close>

definition count_ok :: "(addr \<Rightarrow> 64 word) \<Rightarrow> TransferCache \<Rightarrow> bool" where
  "count_ok m tc = (0 \<le> tc_count tc \<and> has_length m (tc_list tc) (nat (tc_count tc)))"

definition central_blocks :: "allocator \<Rightarrow> nat \<Rightarrow> addr list" where
  "central_blocks s k =
     walk (mem s) (tc_list (transfer_caches s k)) (nat (tc_count (transfer_caches s k)))"

definition transfer_inv :: "allocator \<Rightarrow> bool" where
  "transfer_inv s =
     (\<forall>k<8. count_ok (mem s) (transfer_caches s k)
        \<and> (\<forall>x \<in> set (central_blocks s k). drop_bit PAGE_SHIFT x \<in> mapped s)
        \<and> (\<forall>j<8. j \<noteq> k \<longrightarrow> set (central_blocks s j) \<inter> set (central_blocks s k) = {}))"

text \<open>
  What \<open>releaseToTransferCache\<close> expects of the calling thread's list for class \<open>k\<close>:
  it has \<open>list_lengths\<close> blocks, on mapped pages, none of them on a central list.
\<close>

definition cached_blocks :: "allocator \<Rightarrow> ThreadCache \<Rightarrow> nat \<Rightarrow> addr list" where
  "cached_blocks s my_cache k =
     walk (mem s) (free_lists my_cache k) (nat (list_lengths my_cache k))"

definition batch_ok :: "allocator \<Rightarrow> ThreadCache \<Rightarrow> nat \<Rightarrow> bool" where
  "batch_ok s my_cache k =
     (0 \<le> list_lengths my_cache k
      \<and> has_length (mem s) (free_lists my_cache k) (nat (list_lengths my_cache k))
      \<and> (\<forall>x \<in> set (cached_blocks s my_cache k). drop_bit PAGE_SHIFT x \<in> mapped s)
      \<and> (\<forall>j<8. set (cached_blocks s my_cache k) \<inter> set (central_blocks s j) = {}))"

text \<open>The same invariant with the lists named (used in proofs).\<close>

definition central_lists :: "allocator \<Rightarrow> (nat \<Rightarrow> addr list) \<Rightarrow> bool" where
  "central_lists s xs =
     (\<forall>k<8. chain (mem s) (tc_list (transfer_caches s k)) (xs k)
        \<and> tc_count (transfer_caches s k) = int (length (xs k))
        \<and> (\<forall>x \<in> set (xs k). drop_bit PAGE_SHIFT x \<in> mapped s)
        \<and> (\<forall>j<8. j \<noteq> k \<longrightarrow> set (xs j) \<inter> set (xs k) = {}))"

text \<open>
  A concrete refill: on a fresh allocator the thread asks for class 7 (1024 bytes) and
  the kernel maps the page at 4096, which holds three blocks of 1032 bytes.
\<close>

definition refill_example :: "allocator \<times> ThreadCache" where
  "refill_example =
     fetchFromTransferCache (initial_allocator scavenge_store) initial_cache 7 (Some 4096)"

section \<open>Verified properties\<close>

subsection \<open>Size classes\<close>

lemma getSizeClassIndex_unfold:
  "getSizeClassIndex s =
     (if s \<le> 8 then 0 else if s \<le> 16 then 1 else if s \<le> 32 then 2 else if s \<le> 64 then 3
      else if s \<le> 128 then 4 else if s \<le> 256 then 5 else if s \<le> 512 then 6
      else if s \<le> 1024 then 7 else 8)"
  by (simp add: getSizeClassIndex_def SIZE_CLASSES_def)

lemma getSizeClassIndex_nat: "getSizeClassIndex s = class_of_nat (unat s)"
  unfolding getSizeClassIndex_unfold class_of_nat_def by (simp add: word_le_nat_alt)

lemma index_cases:
  "index < 8 \<Longrightarrow>
     index = 0 \<or> index = 1 \<or> index = 2 \<or> index = 3 \<or> index = 4 \<or> index = 5 \<or> index = 6 \<or> index = (7::nat)"
  by arith

lemma getClassSizeFromIndex_simps:
  "getClassSizeFromIndex 0 = 8" "getClassSizeFromIndex 1 = 16" "getClassSizeFromIndex 2 = 32"
  "getClassSizeFromIndex 3 = 64" "getClassSizeFromIndex 4 = 128" "getClassSizeFromIndex 5 = 256"
  "getClassSizeFromIndex 6 = 512" "getClassSizeFromIndex 7 = 1024"
  "getClassSizeFromIndex (Suc 0) = 16"
  by (simp_all add: getClassSizeFromIndex_def SIZE_CLASSES_def)

lemma unat_getClassSizeFromIndex:
  "index < 8 \<Longrightarrow> unat (getClassSizeFromIndex index) = 2 ^ (index + 3)"
  by (drule index_cases) (auto simp: getClassSizeFromIndex_simps)

lemma classify_bound: "s \<le> 1024 \<Longrightarrow> getSizeClassIndex s < 8"
  by (simp add: getSizeClassIndex_nat class_of_nat_def word_le_nat_alt)

lemma classify_large: "1024 < s \<Longrightarrow> getSizeClassIndex s = 8"
  by (simp add: getSizeClassIndex_nat class_of_nat_def word_less_nat_alt)

lemma classify_covers: "s \<le> 1024 \<Longrightarrow> s \<le> getClassSizeFromIndex (getSizeClassIndex s)"
  by (simp add: getSizeClassIndex_unfold getClassSizeFromIndex_simps)

lemma class_of_nat_least: "j < 8 \<Longrightarrow> n \<le> 2 ^ (j + 3) \<Longrightarrow> class_of_nat n \<le> j"
  by (drule index_cases) (auto simp: class_of_nat_def)

lemma classify_least: "j < 8 \<Longrightarrow> s \<le> getClassSizeFromIndex j \<Longrightarrow> getSizeClassIndex s \<le> j"
  by (simp add: getSizeClassIndex_nat word_le_nat_alt unat_getClassSizeFromIndex class_of_nat_least)

lemma class_of_nat_mono: "m \<le> n \<Longrightarrow> class_of_nat m \<le> class_of_nat n"
  by (simp add: class_of_nat_def)

lemma classify_mono: "s \<le> t \<Longrightarrow> getSizeClassIndex s \<le> getSizeClassIndex t"
  by (simp add: getSizeClassIndex_nat word_le_nat_alt class_of_nat_mono)

lemma class_bytes_mono:
  "i \<le> j \<Longrightarrow> j < 8 \<Longrightarrow> getClassSizeFromIndex i \<le> getClassSizeFromIndex j"
  by (simp add: word_le_nat_alt unat_getClassSizeFromIndex)

text \<open>
  Claim C3. For every size \<open>s\<close> with \<open>0 < s \<le> 1024\<close>, \<open>getSizeClassIndex s\<close> is a
  configured class whose byte value is at least \<open>s\<close>, and it is the smallest such class,
  by index and by byte value; the classification is monotonic non-decreasing in the
  size; and a size above 1024 is classified as 8, the index past the table that the
  callers treat as "large".
\<close>

theorem classify_smallest_class:
  "(0 < s \<and> s \<le> 1024 \<longrightarrow>
      getSizeClassIndex s < 8
      \<and> s \<le> getClassSizeFromIndex (getSizeClassIndex s)
      \<and> (\<forall>j<8. s \<le> getClassSizeFromIndex j \<longrightarrow>
            getSizeClassIndex s \<le> j
            \<and> getClassSizeFromIndex (getSizeClassIndex s) \<le> getClassSizeFromIndex j))
   \<and> (s \<le> t \<longrightarrow> getSizeClassIndex s \<le> getSizeClassIndex t)
   \<and> (1024 < s \<longrightarrow> getSizeClassIndex s = 8)"
  by (simp add: classify_bound classify_covers classify_least classify_mono classify_large
        class_bytes_mono)

theorem classify_smallest_class_witness:
  "(0::64 word) < 9 \<and> (9::64 word) \<le> 1024
   \<and> getSizeClassIndex 9 = 1 \<and> getClassSizeFromIndex (getSizeClassIndex 9) = 16
   \<and> (9::64 word) \<le> 100 \<and> getSizeClassIndex 9 \<le> getSizeClassIndex 100
   \<and> (1024::64 word) < 1025 \<and> getSizeClassIndex 1025 = 8"
  using classify_smallest_class [of 9 100] classify_smallest_class [of 1025 1025]
  by (simp add: getSizeClassIndex_unfold getClassSizeFromIndex_simps)

subsection \<open>Degenerate arguments\<close>

text \<open>
  Claim C9. \<open>allocate(0)\<close> returns null and does no work: the global state (store,
  page index, span pool, transfer caches) and the thread cache are returned unchanged,
  whatever the operating system would have answered. \<open>deallocate(nullptr)\<close> returns
  with the global state, hence every header in the store, and the thread cache
  unchanged.
\<close>

theorem allocate_zero_deallocate_null:
  "allocate s my_cache 0 r = (s, my_cache, 0) \<and> deallocate s my_cache 0 = (s, my_cache)"
  by (simp add: allocate_def deallocate_def)

text \<open>
  Claim C10. If \<open>deallocate\<close> receives a non-null pointer whose header stores a size
  above 1024 while the page id of that header has no entry in the page heap's index,
  it returns with no effect: nothing is unmapped and the index, the transfer caches,
  the store and the calling thread cache are unchanged.
\<close>

theorem deallocate_large_unknown_page:
  "ptr \<noteq> 0 \<Longrightarrow> mem s (ptr - sizeof_BlockHeader) > MAX_SMALL_ALLOC_SIZE \<Longrightarrow>
   page_map s (drop_bit PAGE_SHIFT (ptr - sizeof_BlockHeader)) = None \<Longrightarrow>
   deallocate s my_cache ptr = (s, my_cache)"
  by (simp add: deallocate_def lookupSpan_def Let_def)

theorem deallocate_large_unknown_page_witness:
  "(4104::64 word) \<noteq> 0
   \<and> mem (initial_allocator (\<lambda>_. 2000)) (4104 - sizeof_BlockHeader) > MAX_SMALL_ALLOC_SIZE
   \<and> page_map (initial_allocator (\<lambda>_. 2000)) (drop_bit PAGE_SHIFT (4104 - sizeof_BlockHeader)) = None
   \<and> deallocate (initial_allocator (\<lambda>_. 2000)) initial_cache 4104
       = (initial_allocator (\<lambda>_. 2000), initial_cache)"
  using deallocate_large_unknown_page [of 4104 "initial_allocator (\<lambda>_. 2000)" initial_cache]
  by (simp add: initial_allocator_def MAX_SMALL_ALLOC_SIZE_def)

subsection \<open>The page heap and the large path\<close>


lemma allocateSpan_unavailable:
  assumes "r = None \<or> span_offset s + sizeof_Span > sizeof_span_memory"
  shows "fst (allocateSpan s n r) = None"
    and "mem (snd (allocateSpan s n r)) = mem s"
    and "page_map (snd (allocateSpan s n r)) = page_map s"
    and "transfer_caches (snd (allocateSpan s n r)) = transfer_caches s"
    and "span_offset (snd (allocateSpan s n r)) = span_offset s"
    and "spans (snd (allocateSpan s n r)) = spans s"
  using assms
  by (auto simp: allocateSpan_def mmap_def munmap_def allocate_span_memory_def Let_def
           split: option.splits prod.splits if_splits)

lemma allocateSpan_success:
  assumes "push_bit PAGE_SHIFT n \<noteq> 0" "span_offset s + sizeof_Span \<le> sizeof_span_memory"
  shows "allocateSpan s n (Some a) =
           (Some (span_offset s),
            s\<lparr>mapped := mapped s \<union> pages_of a (push_bit PAGE_SHIFT n),
              span_offset := span_offset s + sizeof_Span,
              spans := (spans s)(span_offset s :=
                 \<lparr>start_page_id = drop_bit PAGE_SHIFT a, num_pages = n,
                  next_span = None, prev_span = None, is_free = False\<rparr>),
              page_map := record_pages (page_map s) (drop_bit PAGE_SHIFT a) (span_offset s) (unat n)\<rparr>)"
  using assms
  by (simp add: allocateSpan_def mmap_def allocate_span_memory_def Let_def)

lemma page_align: "a AND 4095 = 0 \<Longrightarrow> push_bit PAGE_SHIFT (drop_bit PAGE_SHIFT a) = (a :: 64 word)"
proof -
  assume "a AND 4095 = 0"
  then have "take_bit 12 a = 0"
    by (simp add: take_bit_eq_mask mask_eq_exp_minus_1)
  moreover have "push_bit 12 (drop_bit 12 a) + take_bit 12 a = a"
    by (simp add: bits_ident)
  ultimately show ?thesis by (simp add: PAGE_SHIFT_def)
qed

lemma record_pages_apply:
  "record_pages pm start sp n p =
     (if p \<in> (\<lambda>i. start + of_nat i) ` {0 ..< n} then Some sp else pm p)"
  by (induction n) (auto simp: less_Suc_eq)

lemma erase_pages_apply:
  "erase_pages pm start n p =
     (if p \<in> (\<lambda>i. start + of_nat i) ` {0 ..< n} then None else pm p)"
  by (induction n) (auto simp: less_Suc_eq)


lemma fetch_unavailable:
  assumes "r = None \<or> span_offset s + sizeof_Span > sizeof_span_memory"
    and "tc_count (transfer_caches s k) = 0"
  shows "snd (fetchFromTransferCache s c k r) = c"
    and "mem (fst (fetchFromTransferCache s c k r)) = mem s"
    and "page_map (fst (fetchFromTransferCache s c k r)) = page_map s"
    and "transfer_caches (fst (fetchFromTransferCache s c k r)) = transfer_caches s"
  using assms allocateSpan_unavailable [OF assms(1), of 1]
  by (auto simp: fetchFromTransferCache_def Let_def split: prod.splits option.splits)


text \<open>
  Claim C6. Whenever an \<open>allocate\<close> reaches the page heap (a large size, or a small
  size whose thread-cache list and transfer-cache count are both empty) and the
  operating system refuses the mapping or the span-descriptor pool is exhausted,
  \<open>allocate\<close> returns null as an ordinary result; the thread cache is unchanged, so in
  the small case the free list of that class is still empty, and the store, the page
  index and the transfer caches are unchanged.
\<close>

theorem allocate_failure_returns_null:
  assumes "r = None \<or> span_offset s + sizeof_Span > sizeof_span_memory"
    and "sz > MAX_SMALL_ALLOC_SIZE
         \<or> (free_lists my_cache (getSizeClassIndex sz) = 0
            \<and> tc_count (transfer_caches s (getSizeClassIndex sz)) = 0)"
  shows "case allocate s my_cache sz r of (s', c', p) \<Rightarrow>
           p = 0 \<and> c' = my_cache
           \<and> (sz \<le> MAX_SMALL_ALLOC_SIZE \<longrightarrow> free_lists c' (getSizeClassIndex sz) = 0)
           \<and> mem s' = mem s \<and> page_map s' = page_map s \<and> transfer_caches s' = transfer_caches s"
proof (cases "sz > MAX_SMALL_ALLOC_SIZE")
  case True
  then have "sz \<noteq> 0" by (auto simp: MAX_SMALL_ALLOC_SIZE_def)
  with True allocateSpan_unavailable [OF assms(1), of "drop_bit PAGE_SHIFT (sz + sizeof_BlockHeader + 4095)"]
  show ?thesis
    by (auto simp: allocate_def Let_def split: prod.splits option.splits)
next
  case False
  with assms(2) have e: "free_lists my_cache (getSizeClassIndex sz) = 0"
    and z: "tc_count (transfer_caches s (getSizeClassIndex sz)) = 0" by auto
  from False e fetch_unavailable [OF assms(1) z, of my_cache]
  show ?thesis
    by (auto simp: allocate_def Let_def split: prod.splits if_splits)
qed

theorem allocate_failure_returns_null_witness:
  "(case allocate (initial_allocator (\<lambda>_. 0)) initial_cache 100 None of (s', c', p) \<Rightarrow>
      p = 0 \<and> free_lists c' (getSizeClassIndex 100) = 0)
   \<and> span_offset ((initial_allocator (\<lambda>_. 0))\<lparr>span_offset := 40960\<rparr>) + sizeof_Span > sizeof_span_memory
   \<and> (5000 :: 64 word) > MAX_SMALL_ALLOC_SIZE
   \<and> (case allocate ((initial_allocator (\<lambda>_. 0))\<lparr>span_offset := 40960\<rparr>) initial_cache 5000 (Some 4096)
       of (s', c', p) \<Rightarrow> p = 0 \<and> c' = initial_cache)"
  using allocate_failure_returns_null [of None "initial_allocator (\<lambda>_. 0)" 100 initial_cache]
    allocate_failure_returns_null [of "Some 4096" "(initial_allocator (\<lambda>_. 0))\<lparr>span_offset := 40960\<rparr>" 5000 initial_cache]
  by (simp add: initial_allocator_def initial_cache_def MAX_SMALL_ALLOC_SIZE_def sizeof_Span_def
        sizeof_span_memory_def split: prod.splits)

lemma large_num_pages:
  assumes "unat sz + 4103 < 2 ^ 64"
  shows "unat (drop_bit PAGE_SHIFT (sz + sizeof_BlockHeader + 4095) :: 64 word) = (unat sz + 8 + 4095) div 4096"
proof -
  have "unat (sz + sizeof_BlockHeader + 4095) = unat sz + 4103"
    using assms by (simp add: unat_word_ariths sizeof_BlockHeader_def)
  then show ?thesis
    by (simp add: drop_bit_eq_div PAGE_SHIFT_def unat_div_distrib)
qed

lemma push_bit_pages_nonzero:
  assumes "0 < unat n" "unat n < 2 ^ 52"
  shows "push_bit PAGE_SHIFT (n :: 64 word) \<noteq> 0"
proof -
  have "unat (push_bit 12 n) = unat n * 4096"
    using assms by (simp add: push_bit_eq_mult unat_word_ariths)
  with assms show ?thesis by (auto simp: PAGE_SHIFT_def simp flip: unat_gt_0)
qed

lemma allocate_large_path:
  assumes "MAX_SMALL_ALLOC_SIZE < sz" "unat sz + 4103 < 2 ^ 64" "a AND 4095 = 0"
    and "span_offset s + sizeof_Span \<le> sizeof_span_memory"
  shows "allocate s my_cache sz (Some a) =
           ((snd (allocateSpan s (of_nat ((unat sz + 8 + 4095) div 4096)) (Some a)))\<lparr>mem := (mem s)(a := sz)\<rparr>,
            my_cache, a + sizeof_BlockHeader)"
    and "fst (allocateSpan s (of_nat ((unat sz + 8 + 4095) div 4096)) (Some a)) = Some (span_offset s)"
proof -
  let ?n = "drop_bit PAGE_SHIFT (sz + sizeof_BlockHeader + 4095) :: 64 word"
  have n: "unat ?n = (unat sz + 8 + 4095) div 4096" by (rule large_num_pages [OF assms(2)])
  then have eq: "of_nat ((unat sz + 8 + 4095) div 4096) = ?n"
    using assms(2) by (simp add: word_unat_eq_iff unat_of_nat)
  have pos: "0 < unat ?n" and small: "unat ?n < 2 ^ 52"
    using assms(2) unfolding n by simp_all
  have nz: "push_bit PAGE_SHIFT ?n \<noteq> 0" by (rule push_bit_pages_nonzero [OF pos small])
  have "sz \<noteq> 0" using assms(1) by (auto simp: MAX_SMALL_ALLOC_SIZE_def)
  then show "allocate s my_cache sz (Some a) =
           ((snd (allocateSpan s (of_nat ((unat sz + 8 + 4095) div 4096)) (Some a)))\<lparr>mem := (mem s)(a := sz)\<rparr>,
            my_cache, a + sizeof_BlockHeader)"
    unfolding eq using assms(1) page_align [OF assms(3)]
    by (simp add: allocate_def Let_def allocateSpan_success [OF nz assms(4)])
  show "fst (allocateSpan s (of_nat ((unat sz + 8 + 4095) div 4096)) (Some a)) = Some (span_offset s)"
    unfolding eq by (simp add: allocateSpan_success [OF nz assms(4)])
qed


lemma aligned_header_not_null:
  assumes "a AND 4095 = (0 :: 64 word)"
  shows "a + sizeof_BlockHeader \<noteq> 0"
proof
  assume z: "a + sizeof_BlockHeader = 0"
  have "take_bit 12 a = 0"
    using assms by (simp add: take_bit_eq_mask mask_eq_exp_minus_1)
  then have "take_bit 12 (unat a) = 0"
    by (metis unsigned_take_bit_eq unsigned_0)
  then have m: "unat a mod 4096 = 0" by (simp add: take_bit_eq_mod)
  have "unat (a + 8) = (unat a + 8) mod 2 ^ 64" by (simp add: unat_word_ariths)
  with z have "(unat a + 8) mod 2 ^ 64 = 0" by (simp add: sizeof_BlockHeader_def)
  moreover have "unat a < 2 ^ 64" using unsigned_less [of a] by simp
  ultimately obtain q where q: "unat a + 8 = 18446744073709551616 * q" and "unat a < 18446744073709551616"
    by (auto simp: mod_eq_0_iff_dvd elim!: dvdE)
  then have "q = 1" by (cases q) auto
  with q have "unat a = 18446744073709547520 + 4088" by simp
  with m show False by simp
qed

lemma large_round_trip_general:
  assumes "MAX_SMALL_ALLOC_SIZE < sz" "unat sz + 4103 < 2 ^ 64" "a AND 4095 = 0"
    and "span_offset s + sizeof_Span \<le> sizeof_span_memory"
  shows "case allocate s my_cache sz (Some a) of (s1, c1, p) \<Rightarrow>
           p = a + sizeof_BlockHeader \<and> p \<noteq> 0
           \<and> mem s1 (p - sizeof_BlockHeader) = sz
           \<and> lookupSpan s1 (p - sizeof_BlockHeader) = Some (span_offset s)
           \<and> (case deallocate s1 c1 p of (s2, c2) \<Rightarrow>
                 c2 = my_cache
                 \<and> (\<forall>x. drop_bit PAGE_SHIFT x \<in> span_pages (spans s1 (span_offset s))
                        \<longrightarrow> lookupSpan s2 x = None))"
proof -
  let ?k = "(unat sz + 8 + 4095) div 4096"
  let ?n = "of_nat ?k :: 64 word"
  have k: "unat ?n = ?k" using assms(2) by (simp add: unat_of_nat)
  have pos: "0 < unat ?n" and small: "unat ?n < 2 ^ 52"
    using assms(2) unfolding k by simp_all
  have nz: "push_bit PAGE_SHIFT ?n \<noteq> 0" by (rule push_bit_pages_nonzero [OF pos small])
  note A = allocate_large_path(1) [OF assms, of my_cache]
  note S = allocateSpan_success [OF nz assms(4), of a]
  have hd: "a + sizeof_BlockHeader - sizeof_BlockHeader = a" by simp
  have in0: "drop_bit PAGE_SHIFT a \<in> (\<lambda>i. drop_bit PAGE_SHIFT a + word_of_nat i) ` {0..<unat ?n}"
    using pos by (intro image_eqI [where x = 0]) simp_all
  show ?thesis
    unfolding A S using assms(1) aligned_header_not_null [OF assms(3)] in0
    by (simp add: hd deallocate_def lookupSpan_def Let_def record_pages_apply
          deallocateSpan_def munmap_def erase_pages_apply span_pages_def)
qed


text \<open>
  Claim C5. After a successful \<open>allocate(2000)\<close> the header just before the returned
  pointer stores 2000 and the page heap's index knows the span; after \<open>deallocate\<close> of
  that pointer, \<open>lookupSpan\<close> finds nothing for any address on any page the span
  covered.
\<close>

theorem large_round_trip:
  assumes "a AND 4095 = 0" and "span_offset s + sizeof_Span \<le> sizeof_span_memory"
  shows "case allocate s my_cache 2000 (Some a) of (s1, c1, p) \<Rightarrow>
           p \<noteq> 0 \<and> mem s1 (p - sizeof_BlockHeader) = 2000
           \<and> lookupSpan s1 (p - sizeof_BlockHeader) = Some (span_offset s)
           \<and> (case deallocate s1 c1 p of (s2, c2) \<Rightarrow>
                 \<forall>x. drop_bit PAGE_SHIFT x \<in> span_pages (spans s1 (span_offset s))
                       \<longrightarrow> lookupSpan s2 x = None)"
  using large_round_trip_general [of 2000 a s my_cache] assms
  by (simp add: MAX_SMALL_ALLOC_SIZE_def split: prod.splits)

theorem large_round_trip_witness:
  "(8192 :: 64 word) AND 4095 = 0
   \<and> span_offset (initial_allocator (\<lambda>_. 0)) + sizeof_Span \<le> sizeof_span_memory
   \<and> (case allocate (initial_allocator (\<lambda>_. 0)) initial_cache 2000 (Some 8192) of (s1, c1, p) \<Rightarrow>
         p = 8200 \<and> mem s1 8192 = 2000 \<and> lookupSpan s1 8192 = Some 0
         \<and> span_pages (spans s1 0) = {2}
         \<and> (case deallocate s1 c1 p of (s2, c2) \<Rightarrow> lookupSpan s2 8192 = None \<and> lookupSpan s2 10000 = None))"
proof -
  let ?s = "initial_allocator (\<lambda>_. 0)"
  let ?s1 = "\<lparr>mem = (\<lambda>_. 0)(8192 := 2000), mapped = pages_of 8192 4096, span_offset = 40,
              spans = (\<lambda>_. \<lparr>start_page_id = 0, num_pages = 0, next_span = None,
                              prev_span = None, is_free = True\<rparr>)
                      (0 := \<lparr>start_page_id = 2, num_pages = 1, next_span = None,
                             prev_span = None, is_free = False\<rparr>),
              page_map = [2 \<mapsto> 0],
              transfer_caches = \<lambda>_. \<lparr>tc_list = 0, tc_count = 0\<rparr>\<rparr>"
  have A: "allocate ?s initial_cache 2000 (Some 8192) = (?s1, initial_cache, 8200)"
    by (simp add: initial_allocator_def allocate_def Let_def allocateSpan_def mmap_def
        allocate_span_memory_def MAX_SMALL_ALLOC_SIZE_def sizeof_BlockHeader_def PAGE_SHIFT_def
        sizeof_Span_def sizeof_span_memory_def)
  have P: "span_pages (spans ?s1 0) = {2}"
    by (simp add: span_pages_def)
  have H: "(8192 :: 64 word) AND 4095 = 0"
    "span_offset ?s + sizeof_Span \<le> sizeof_span_memory"
    by (simp_all add: initial_allocator_def sizeof_Span_def sizeof_span_memory_def)
  have D: "drop_bit PAGE_SHIFT (8192 :: 64 word) = 2" "drop_bit PAGE_SHIFT (10000 :: 64 word) = 2"
    by (simp_all add: PAGE_SHIFT_def drop_bit_eq_div)
  have so: "span_offset ?s = 0" by (simp add: initial_allocator_def)
  from large_round_trip [OF H, of initial_cache]
  show ?thesis
    unfolding A so using H P D
    by (auto simp: lookupSpan_def Let_def sizeof_BlockHeader_def split: prod.splits)
qed

subsection \<open>The boundary between the small and the large path\<close>


lemma allocate_small_boundary:
  assumes "free_lists my_cache 7 \<noteq> 0"
  shows "allocate s my_cache 1024 r =
           (s\<lparr>mem := (mem s)(free_lists my_cache 7 := 1024)\<rparr>,
            my_cache\<lparr>free_lists := (free_lists my_cache)(7 := mem s (free_lists my_cache 7)),
                     list_lengths := (list_lengths my_cache)(7 := list_lengths my_cache 7 - 1)\<rparr>,
            free_lists my_cache 7 + sizeof_BlockHeader)"
  using assms
  by (simp add: allocate_def MAX_SMALL_ALLOC_SIZE_def getSizeClassIndex_unfold
        getClassSizeFromIndex_simps Let_def)

lemma allocate_large_boundary:
  assumes "a AND 4095 = 0" "span_offset s + sizeof_Span \<le> sizeof_span_memory"
  shows "allocate s my_cache 1025 (Some a) =
           ((snd (allocateSpan s 1 (Some a)))\<lparr>mem := (mem s)(a := 1025)\<rparr>,
            my_cache, a + sizeof_BlockHeader)"
  using allocate_large_path(1) [of 1025 a s my_cache] assms
  by (simp add: MAX_SMALL_ALLOC_SIZE_def)

text \<open>
  Claim C4. \<open>allocate(1024)\<close> takes the small path and \<open>allocate(1025)\<close> the large
  path (\<open>allocate_small_boundary\<close>, \<open>allocate_large_boundary\<close>), and as long as
  \<open>size + 8 + 4095\<close> fits in 64 bits the large path requests
  \<open>(size + 8)\<close> rounded up to whole pages, stamps the size into the header and returns
  the address past it (\<open>allocate_large_path\<close>). The sum is computed in \<open>size_t\<close>
  without an overflow check, though: for the size \<open>2^64 - 1\<close> it wraps to 7, a single
  page is requested from the page heap where \<open>2^52 + 1\<close> pages would be needed, and a
  non-null pointer is returned whose header claims \<open>2^64 - 1\<close> bytes.
\<close>

theorem allocate_size_max_wraps:
  "case allocate (initial_allocator (\<lambda>_. 0)) initial_cache 18446744073709551615 (Some 4096)
   of (s', c', p) \<Rightarrow>
     p = 4104 \<and> mem s' 4096 = 18446744073709551615
     \<and> num_pages (spans s' 0) = 1 \<and> dom (page_map s') = {1}
     \<and> (unat (18446744073709551615 :: 64 word) + 8 + 4095) div 4096 = 4503599627370497"
  by (simp add: initial_allocator_def allocate_def Let_def allocateSpan_def mmap_def
        allocate_span_memory_def MAX_SMALL_ALLOC_SIZE_def sizeof_BlockHeader_def PAGE_SHIFT_def
        sizeof_Span_def sizeof_span_memory_def drop_bit_eq_div)

subsection \<open>Scavenging\<close>


lemma deallocate_all_append:
  "deallocate_all s c (ps @ qs) =
     (case deallocate_all s c ps of (s', c') \<Rightarrow> deallocate_all s' c' qs)"
  by (induction ps arbitrary: s c) (auto split: prod.splits)

lemma small_of_class: "getSizeClassIndex sz < 8 \<Longrightarrow> \<not> sz > MAX_SMALL_ALLOC_SIZE"
  using classify_large [of sz] by (auto simp: MAX_SMALL_ALLOC_SIZE_def)

lemma deallocate_push:
  assumes "ptr \<noteq> 0" "getSizeClassIndex (mem s (ptr - sizeof_BlockHeader)) = k" "k < 8"
    and "list_lengths c k + 1 \<le> SCAVENGE_THRESHOLD"
  shows "deallocate s c ptr =
           (s\<lparr>mem := (mem s)(ptr - sizeof_BlockHeader := free_lists c k)\<rparr>,
            c\<lparr>free_lists := (free_lists c)(k := ptr - sizeof_BlockHeader),
              list_lengths := (list_lengths c)(k := list_lengths c k + 1)\<rparr>)"
  using assms small_of_class [of "mem s (ptr - sizeof_BlockHeader)"]
  by (simp add: deallocate_def Let_def)

lemma deallocate_scavenge:
  assumes "ptr \<noteq> 0" "getSizeClassIndex (mem s (ptr - sizeof_BlockHeader)) = k" "k < 8"
    and "list_lengths c k + 1 > SCAVENGE_THRESHOLD"
  shows "deallocate s c ptr =
           releaseToTransferCache
             (s\<lparr>mem := (mem s)(ptr - sizeof_BlockHeader := free_lists c k)\<rparr>)
             (c\<lparr>free_lists := (free_lists c)(k := ptr - sizeof_BlockHeader),
               list_lengths := (list_lengths c)(k := list_lengths c k + 1)\<rparr>) k"
  using assms small_of_class [of "mem s (ptr - sizeof_BlockHeader)"]
  by (simp add: deallocate_def Let_def)

lemma release_counts:
  assumes "k < 8" "list_lengths c k \<noteq> 0"
  shows "list_lengths (snd (releaseToTransferCache s c k)) k = 0"
    and "free_lists (snd (releaseToTransferCache s c k)) k = 0"
    and "tc_count (transfer_caches (fst (releaseToTransferCache s c k)) k)
           = tc_count (transfer_caches s k) + list_lengths c k"
  using assms by (simp_all add: releaseToTransferCache_def Let_def)

lemma deallocate_all_below_threshold:
  assumes "k < 8"
    and "distinct (map (\<lambda>p. p - sizeof_BlockHeader) ps)"
    and "\<forall>p \<in> set ps. p \<noteq> 0 \<and> getSizeClassIndex (mem s (p - sizeof_BlockHeader)) = k"
    and "list_lengths c k + int (length ps) \<le> SCAVENGE_THRESHOLD"
  shows "list_lengths (snd (deallocate_all s c ps)) k = list_lengths c k + int (length ps)
         \<and> transfer_caches (fst (deallocate_all s c ps)) = transfer_caches s
         \<and> (\<forall>h. h \<notin> (\<lambda>p. p - sizeof_BlockHeader) ` set ps \<longrightarrow>
                mem (fst (deallocate_all s c ps)) h = mem s h)"
  using assms(2-)
proof (induction ps arbitrary: s c)
  case Nil
  then show ?case by simp
next
  case (Cons p ps)
  let ?s1 = "s\<lparr>mem := (mem s)(p - sizeof_BlockHeader := free_lists c k)\<rparr>"
  let ?c1 = "c\<lparr>free_lists := (free_lists c)(k := p - sizeof_BlockHeader),
               list_lengths := (list_lengths c)(k := list_lengths c k + 1)\<rparr>"
  have d: "deallocate s c p = (?s1, ?c1)"
    using Cons.prems assms(1) by (intro deallocate_push) auto
  have "list_lengths (snd (deallocate_all ?s1 ?c1 ps)) k = list_lengths ?c1 k + int (length ps)
         \<and> transfer_caches (fst (deallocate_all ?s1 ?c1 ps)) = transfer_caches ?s1
         \<and> (\<forall>h. h \<notin> (\<lambda>p. p - sizeof_BlockHeader) ` set ps \<longrightarrow>
                mem (fst (deallocate_all ?s1 ?c1 ps)) h = mem ?s1 h)"
    using Cons.prems by (intro Cons.IH) auto
  then show ?case by (simp add: d)
qed

lemma deallocate_all_crosses_threshold:
  assumes "k < 8" and "length ps = 129"
    and "distinct (map (\<lambda>p. p - sizeof_BlockHeader) ps)"
    and "\<forall>p \<in> set ps. p \<noteq> 0 \<and> getSizeClassIndex (mem s (p - sizeof_BlockHeader)) = k"
    and "list_lengths c k = 0"
  shows "list_lengths (snd (deallocate_all s c ps)) k = 0
         \<and> free_lists (snd (deallocate_all s c ps)) k = 0
         \<and> tc_count (transfer_caches (fst (deallocate_all s c ps)) k)
             = tc_count (transfer_caches s k) + 129"
proof -
  from assms(2) obtain qs p where ps: "ps = qs @ [p]" and lq: "length qs = 128"
    by (cases ps rule: rev_cases) auto
  let ?s1 = "fst (deallocate_all s c qs)" and ?c1 = "snd (deallocate_all s c qs)"
  have B: "list_lengths ?c1 k = list_lengths c k + int (length qs)
         \<and> transfer_caches ?s1 = transfer_caches s
         \<and> (\<forall>h. h \<notin> (\<lambda>p. p - sizeof_BlockHeader) ` set qs \<longrightarrow> mem ?s1 h = mem s h)"
    using assms(3,4,5) lq unfolding ps
    by (intro deallocate_all_below_threshold [OF assms(1)]) (auto simp: SCAVENGE_THRESHOLD_def)
  have len: "list_lengths ?c1 k = 128" using B assms(5) lq by simp
  have hp: "p - sizeof_BlockHeader \<notin> (\<lambda>p. p - sizeof_BlockHeader) ` set qs"
    using assms(3) unfolding ps by auto
  then have mp: "mem ?s1 (p - sizeof_BlockHeader) = mem s (p - sizeof_BlockHeader)"
    using B by blast
  have pk: "p \<noteq> 0" "getSizeClassIndex (mem ?s1 (p - sizeof_BlockHeader)) = k"
    using assms(4) unfolding ps mp by auto
  let ?s2 = "?s1\<lparr>mem := (mem ?s1)(p - sizeof_BlockHeader := free_lists ?c1 k)\<rparr>"
  let ?c2 = "?c1\<lparr>free_lists := (free_lists ?c1)(k := p - sizeof_BlockHeader),
               list_lengths := (list_lengths ?c1)(k := list_lengths ?c1 k + 1)\<rparr>"
  have D: "deallocate ?s1 ?c1 p = releaseToTransferCache ?s2 ?c2 k"
    using pk assms(1) len by (intro deallocate_scavenge) (auto simp: SCAVENGE_THRESHOLD_def)
  have all: "deallocate_all s c ps = releaseToTransferCache ?s2 ?c2 k"
    unfolding ps deallocate_all_append using D by (auto split: prod.splits)
  have nz: "list_lengths ?c2 k \<noteq> 0" using len by simp
  show ?thesis
    unfolding all using release_counts [OF assms(1) nz, of ?s2] B len by simp
qed


lemma unat_scavenge_block: "i < 129 \<Longrightarrow> unat (scavenge_block i) = 4104 + 16 * i"
  by (simp add: scavenge_block_def unat_word_ariths unat_of_nat)

lemma scavenge_example_admissible:
  "length scavenge_ptrs = 129"
  "distinct (map (\<lambda>p. p - sizeof_BlockHeader) scavenge_ptrs)"
  "\<forall>p \<in> set scavenge_ptrs.
     p \<noteq> 0 \<and> getSizeClassIndex (mem (initial_allocator scavenge_store) (p - sizeof_BlockHeader)) = 0"
  "list_lengths initial_cache 0 = 0"
proof -
  show "length scavenge_ptrs = 129" by (simp add: scavenge_ptrs_def)
  have inj: "inj_on scavenge_block (set [0 ..< 129])"
  proof (rule inj_onI)
    fix i j assume "i \<in> set [0 ..< 129]" "j \<in> set [0 ..< 129]" "scavenge_block i = scavenge_block j"
    then have "i < 129" "j < 129" "unat (scavenge_block i) = unat (scavenge_block j)" by auto
    then show "i = j" by (simp add: unat_scavenge_block)
  qed
  have "distinct scavenge_ptrs"
    unfolding scavenge_ptrs_def by (simp add: distinct_map inj del: set_upt)
  moreover have "inj_on (\<lambda>p :: 64 word. p - sizeof_BlockHeader) (set scavenge_ptrs)"
    by (rule inj_onI) simp
  ultimately show "distinct (map (\<lambda>p. p - sizeof_BlockHeader) scavenge_ptrs)"
    by (simp add: distinct_map)
  show "\<forall>p \<in> set scavenge_ptrs.
     p \<noteq> 0 \<and> getSizeClassIndex (mem (initial_allocator scavenge_store) (p - sizeof_BlockHeader)) = 0"
  proof
    fix p assume "p \<in> set scavenge_ptrs"
    then obtain i where "i < 129" "p = scavenge_block i" by (auto simp: scavenge_ptrs_def)
    then have "unat p \<noteq> 0" by (simp add: unat_scavenge_block)
    then have "p \<noteq> 0" by auto
    then show "p \<noteq> 0 \<and> getSizeClassIndex (mem (initial_allocator scavenge_store) (p - sizeof_BlockHeader)) = 0"
      by (simp add: initial_allocator_def scavenge_store_def getSizeClassIndex_unfold)
  qed
  show "list_lengths initial_cache 0 = 0" by (simp add: initial_cache_def)
qed

text \<open>
  Claim C1 (amended). Starting from a thread cache whose list for class \<open>k\<close> is
  empty, 129 consecutive \<open>deallocate\<close> calls of distinct blocks whose headers classify
  to \<open>k\<close> end with the scavenge of the 129th call, and \<open>releaseToTransferCache\<close>
  hands over the whole list, not a batch of 32: the thread cache's list for \<open>k\<close> is
  empty again with length 0, and the transfer cache's count for \<open>k\<close> has grown by
  exactly 129.
\<close>

theorem scavenging_releases_whole_list:
  assumes "k < 8" and "length ps = 129"
    and "distinct (map (\<lambda>p. p - sizeof_BlockHeader) ps)"
    and "\<forall>p \<in> set ps. p \<noteq> 0 \<and> getSizeClassIndex (mem s (p - sizeof_BlockHeader)) = k"
    and "list_lengths my_cache k = 0"
  shows "list_lengths (snd (deallocate_all s my_cache ps)) k = 0
         \<and> free_lists (snd (deallocate_all s my_cache ps)) k = 0
         \<and> tc_count (transfer_caches (fst (deallocate_all s my_cache ps)) k)
             = tc_count (transfer_caches s k) + 129"
  using assms by (rule deallocate_all_crosses_threshold)

theorem scavenging_releases_whole_list_witness:
  "length scavenge_ptrs = 129
   \<and> list_lengths initial_cache 0 = 0
   \<and> list_lengths (snd (deallocate_all (initial_allocator scavenge_store) initial_cache scavenge_ptrs)) 0 = 0
   \<and> tc_count (transfer_caches
        (fst (deallocate_all (initial_allocator scavenge_store) initial_cache scavenge_ptrs)) 0) = 129"
  using scavenging_releases_whole_list [OF _ scavenge_example_admissible]
    scavenge_example_admissible(1,4)
  by (simp add: initial_allocator_def)

text \<open>
  Claim C1 as stated fails on the concrete run: the thread cache does not keep 97
  blocks while the transfer cache gains 32.
\<close>

theorem scavenging_batch_of_32_counterexample:
  "\<not> (list_lengths (snd (deallocate_all (initial_allocator scavenge_store) initial_cache scavenge_ptrs)) 0 = 97
      \<and> tc_count (transfer_caches
           (fst (deallocate_all (initial_allocator scavenge_store) initial_cache scavenge_ptrs)) 0)
         = tc_count (transfer_caches (initial_allocator scavenge_store) 0) + 32)"
  using deallocate_all_crosses_threshold [OF _ scavenge_example_admissible]
  by simp

subsection \<open>The page-ownership index\<close>


lemma unat_push_bit_pages:
  "unat n < 2 ^ 52 \<Longrightarrow> unat (push_bit PAGE_SHIFT (n :: 64 word)) = unat n * 4096"
  by (simp add: PAGE_SHIFT_def push_bit_eq_mult unat_word_ariths)

lemma unat_drop_bit_page: "unat (drop_bit PAGE_SHIFT (a :: 64 word)) = unat a div 4096"
  by (simp add: PAGE_SHIFT_def drop_bit_eq_div unat_div_distrib)

lemma page_id_bound: "unat (drop_bit PAGE_SHIFT (a :: 64 word)) < 2 ^ 52"
proof -
  have "unat a < 2 ^ 64" using unsigned_less [of a] by simp
  then show ?thesis unfolding unat_drop_bit_page by simp
qed

lemma drop_push_page:
  assumes "unat p < 2 ^ 52"
  shows "drop_bit PAGE_SHIFT (push_bit PAGE_SHIFT (p :: 64 word)) = p"
  using assms by (simp add: word_unat_eq_iff unat_drop_bit_page unat_push_bit_pages)

lemma pages_of_push_bit:
  assumes "unat n < 2 ^ 52"
  shows "pages_of a (push_bit PAGE_SHIFT n) = (\<lambda>i. drop_bit PAGE_SHIFT a + of_nat i) ` {0 ..< unat n}"
  using assms by (simp add: pages_of_def unat_push_bit_pages)

lemma pages_of_span:
  assumes "unat (start_page_id d) < 2 ^ 52" "unat (num_pages d) < 2 ^ 52"
  shows "pages_of (push_bit PAGE_SHIFT (start_page_id d)) (push_bit PAGE_SHIFT (num_pages d)) = span_pages d"
  using assms by (simp add: pages_of_push_bit drop_push_page span_pages_def)

lemma initial_page_heap_inv: "page_heap_inv (initial_allocator m, {})"
  by (simp add: page_heap_inv_def page_index_inv_def initial_allocator_def)

lemma allocateSpan_cases:
  obtains (failed) "fst (allocateSpan s n r) = None"
      "page_map (snd (allocateSpan s n r)) = page_map s"
      "spans (snd (allocateSpan s n r)) = spans s"
      "span_offset (snd (allocateSpan s n r)) = span_offset s"
      "mapped (snd (allocateSpan s n r)) = mapped s
       \<or> (\<exists>a. r = Some a \<and> mapped (snd (allocateSpan s n r))
                 = (mapped s \<union> pages_of a (push_bit PAGE_SHIFT n)) - pages_of a (push_bit PAGE_SHIFT n))"
    | (ok) a where "r = Some a" "push_bit PAGE_SHIFT n \<noteq> 0"
      "span_offset s + sizeof_Span \<le> sizeof_span_memory"
  by (cases r; cases "push_bit PAGE_SHIFT n = 0";
      cases "span_offset s + sizeof_Span \<le> sizeof_span_memory")
     (auto simp: allocateSpan_def mmap_def munmap_def allocate_span_memory_def Let_def)


lemma allocate_step_inv:
  assumes inv: "page_heap_inv (s, live)" and adm: "op_admissible (s, live) (AllocateSpan n r)"
  shows "page_heap_inv (heap_step (s, live) (AllocateSpan n r))"
proof -
  from adm have n52: "unat n < 2 ^ 52" and ok: "mmap_result_ok s (push_bit PAGE_SHIFT n) r" by auto
  from inv have idx: "page_index_inv (s, live)"
    and bnd: "\<forall>a \<in> live. a < span_offset s
              \<and> unat (start_page_id (spans s a)) < 2 ^ 52 \<and> unat (num_pages (spans s a)) < 2 ^ 52"
    and mp: "mapped s = (\<Union>a \<in> live. span_pages (spans s a))"
    by (auto simp: page_heap_inv_def)
  show ?thesis
  proof (cases rule: allocateSpan_cases [of s n r])
    case failed
    let ?s' = "snd (allocateSpan s n r)"
    have m: "mapped ?s' = mapped s"
    proof -
      { fix a assume r: "r = Some a"
          and e: "mapped ?s' = (mapped s \<union> pages_of a (push_bit PAGE_SHIFT n)) - pages_of a (push_bit PAGE_SHIFT n)"
        from ok r have "pages_of a (push_bit PAGE_SHIFT n) \<inter> mapped s = {}"
          by (simp add: mmap_result_ok_def)
        with e have "mapped ?s' = mapped s" by blast }
      with failed(5) show ?thesis by blast
    qed
    obtain x where x: "allocateSpan s n r = (None, x)"
      using failed(1) by (cases "allocateSpan s n r") auto
    have xs: "snd (allocateSpan s n r) = x" by (simp add: x)
    note F = failed(2,3,4) [unfolded xs] m [unfolded xs]
    have st: "heap_step (s, live) (AllocateSpan n r) = (x, live)"
      by (simp add: x)
    have "page_index_inv (x, live)"
      using idx unfolding page_index_inv_def by (simp add: F)
    then show ?thesis
      unfolding st page_heap_inv_def using bnd mp by (simp add: F)
  next
    case (ok a)
    define sp where "sp = span_offset s"
    define d where "d = \<lparr>start_page_id = drop_bit PAGE_SHIFT a, num_pages = n,
               next_span = None, prev_span = None, is_free = False\<rparr>"
    define s' where "s' = snd (allocateSpan s n r)"
    have succ: "allocateSpan s n r = (Some sp, s')"
      and f1: "mapped s' = mapped s \<union> pages_of a (push_bit PAGE_SHIFT n)"
      and f2: "span_offset s' = span_offset s + sizeof_Span"
      and f3: "spans s' = (spans s)(sp := d)"
      and f4: "page_map s' = record_pages (page_map s) (drop_bit PAGE_SHIFT a) sp (unat n)"
      unfolding s'_def sp_def d_def ok(1) allocateSpan_success [OF ok(2,3)] by simp_all
    have st: "heap_step (s, live) (AllocateSpan n r) = (s', insert sp live)"
      by (simp add: succ)
    have dP: "span_pages d = (\<lambda>i. drop_bit PAGE_SHIFT a + of_nat i) ` {0 ..< unat n}"
      by (simp add: span_pages_def d_def)
    have P: "pages_of a (push_bit PAGE_SHIFT n) = span_pages d"
      unfolding dP by (rule pages_of_push_bit [OF n52])
    have fresh: "sp \<notin> live" using bnd unfolding sp_def by auto
    have old: "\<And>b. b \<in> live \<Longrightarrow> spans s' b = spans s b" using fresh unfolding f3 by auto
    have new: "spans s' sp = d" unfolding f3 by simp
    have "span_pages d \<inter> mapped s = {}"
      using \<open>mmap_result_ok s (push_bit PAGE_SHIFT n) r\<close>
      unfolding ok(1) mmap_result_ok_def by (simp add: P)
    then have disj: "\<And>b. b \<in> live \<Longrightarrow> span_pages d \<inter> span_pages (spans s b) = {}"
      unfolding mp by blast
    have pm: "\<And>p. page_map s' p = (if p \<in> span_pages d then Some sp else page_map s p)"
      unfolding f4 dP by (rule record_pages_apply)
    from idx have i1: "\<And>x y. x \<in> live \<Longrightarrow> y \<in> live \<Longrightarrow> x \<noteq> y \<Longrightarrow>
                         span_pages (spans s x) \<inter> span_pages (spans s y) = {}"
      and i2: "\<And>p x. page_map s p = Some x \<longleftrightarrow> x \<in> live \<and> p \<in> span_pages (spans s x)"
      unfolding page_index_inv_def by simp_all
    have c1: "\<forall>x \<in> insert sp live. \<forall>y \<in> insert sp live. x \<noteq> y \<longrightarrow>
                span_pages (spans s' x) \<inter> span_pages (spans s' y) = {}"
    proof (intro ballI impI)
      fix x y assume xy: "x \<in> insert sp live" "y \<in> insert sp live" "x \<noteq> y"
      consider "x = sp" "y \<in> live" | "y = sp" "x \<in> live" | "x \<in> live" "y \<in> live"
        using xy by auto
      then show "span_pages (spans s' x) \<inter> span_pages (spans s' y) = {}"
      proof cases
        case 1 then show ?thesis using disj [of y] old [of y] new by simp
      next
        case 2 then show ?thesis using disj [of x] old [of x] new by (simp add: Int_commute)
      next
        case 3 then show ?thesis using i1 [of x y] xy(3) old by simp
      qed
    qed
    have c2: "\<forall>p x. page_map s' p = Some x \<longleftrightarrow>
                x \<in> insert sp live \<and> p \<in> span_pages (spans s' x)"
    proof (intro allI)
      fix p x
      show "page_map s' p = Some x \<longleftrightarrow> x \<in> insert sp live \<and> p \<in> span_pages (spans s' x)"
      proof (cases "p \<in> span_pages d")
        case True
        then have no: "\<And>b. b \<in> live \<Longrightarrow> p \<notin> span_pages (spans s b)" using disj by blast
        show ?thesis
        proof (cases "x = sp")
          case True
          with \<open>p \<in> span_pages d\<close> show ?thesis unfolding pm by (simp add: new)
        next
          case False
          with \<open>p \<in> span_pages d\<close> no [of x] old [of x] show ?thesis unfolding pm by auto
        qed
      next
        case False
        show ?thesis
        proof (cases "x = sp")
          case True
          with False fresh i2 [of p sp] show ?thesis unfolding pm by (simp add: new)
        next
          case neq: False
          with False i2 [of p x] old [of x] show ?thesis unfolding pm by auto
        qed
      qed
    qed
    have c3: "\<forall>x \<in> insert sp live. x < span_offset s'
              \<and> unat (start_page_id (spans s' x)) < 2 ^ 52 \<and> unat (num_pages (spans s' x)) < 2 ^ 52"
    proof
      fix x assume "x \<in> insert sp live"
      then consider "x = sp" | "x \<in> live" by auto
      then show "x < span_offset s'
              \<and> unat (start_page_id (spans s' x)) < 2 ^ 52 \<and> unat (num_pages (spans s' x)) < 2 ^ 52"
      proof cases
        case 1
        have "unat (start_page_id d) < 2 ^ 52" unfolding d_def using page_id_bound [of a] by simp
        moreover have "unat (num_pages d) < 2 ^ 52" unfolding d_def using n52 by simp
        moreover have "sp < span_offset s'" unfolding f2 sp_def by (simp add: sizeof_Span_def)
        ultimately show ?thesis unfolding 1 new by blast
      next
        case 2
        with bnd have "x < span_offset s" "unat (start_page_id (spans s x)) < 2 ^ 52"
          "unat (num_pages (spans s x)) < 2 ^ 52" by blast+
        then show ?thesis unfolding old [OF 2] f2 by simp
      qed
    qed
    have "(\<Union>x \<in> live. span_pages (spans s' x)) = (\<Union>x \<in> live. span_pages (spans s x))"
      using old by simp
    then have c4: "mapped s' = (\<Union>x \<in> insert sp live. span_pages (spans s' x))"
      unfolding f1 P mp using new by auto
    show ?thesis
      unfolding st page_heap_inv_def page_index_inv_def using c1 c2 c3 c4 by simp
  qed
qed


lemma deallocate_step_inv:
  assumes inv: "page_heap_inv (s, live)" and adm: "op_admissible (s, live) (DeallocateSpan sp)"
  shows "page_heap_inv (heap_step (s, live) (DeallocateSpan sp))"
proof -
  from adm have lv: "sp \<in> live" by simp
  from inv have idx: "page_index_inv (s, live)"
    and bnd: "\<forall>a \<in> live. a < span_offset s
              \<and> unat (start_page_id (spans s a)) < 2 ^ 52 \<and> unat (num_pages (spans s a)) < 2 ^ 52"
    and mp: "mapped s = (\<Union>a \<in> live. span_pages (spans s a))"
    by (auto simp: page_heap_inv_def)
  from idx have i1: "\<And>x y. x \<in> live \<Longrightarrow> y \<in> live \<Longrightarrow> x \<noteq> y \<Longrightarrow>
                         span_pages (spans s x) \<inter> span_pages (spans s y) = {}"
    and i2: "\<And>p x. page_map s p = Some x \<longleftrightarrow> x \<in> live \<and> p \<in> span_pages (spans s x)"
    unfolding page_index_inv_def by simp_all
  define d where "d = spans s sp"
  define s' where "s' = deallocateSpan s sp"
  have db: "unat (start_page_id d) < 2 ^ 52" "unat (num_pages d) < 2 ^ 52"
    using bnd lv unfolding d_def by blast+
  have f1: "mapped s' = mapped s - span_pages d"
    and f2: "span_offset s' = span_offset s"
    and f3: "spans s' = spans s"
    and f4: "page_map s' = erase_pages (page_map s) (start_page_id d) (unat (num_pages d))"
    unfolding s'_def d_def deallocateSpan_def munmap_def Let_def
    using pages_of_span [OF db] unfolding d_def by simp_all
  have pm: "\<And>p. page_map s' p = (if p \<in> span_pages d then None else page_map s p)"
    unfolding f4 span_pages_def by (rule erase_pages_apply)
  have st: "heap_step (s, live) (DeallocateSpan sp) = (s', live - {sp})"
    by (simp add: s'_def)
  have disj: "\<And>b. b \<in> live - {sp} \<Longrightarrow> span_pages d \<inter> span_pages (spans s b) = {}"
    using i1 [OF lv] unfolding d_def by auto
  have c1: "\<forall>x \<in> live - {sp}. \<forall>y \<in> live - {sp}. x \<noteq> y \<longrightarrow>
              span_pages (spans s' x) \<inter> span_pages (spans s' y) = {}"
    unfolding f3 using i1 by simp
  have c2: "\<forall>p x. page_map s' p = Some x \<longleftrightarrow> x \<in> live - {sp} \<and> p \<in> span_pages (spans s' x)"
  proof (intro allI)
    fix p x
    show "page_map s' p = Some x \<longleftrightarrow> x \<in> live - {sp} \<and> p \<in> span_pages (spans s' x)"
    proof (cases "p \<in> span_pages d")
      case True
      then have "\<And>b. b \<in> live - {sp} \<Longrightarrow> p \<notin> span_pages (spans s b)" using disj by blast
      with True show ?thesis unfolding pm f3 by auto
    next
      case False
      then have "x = sp \<Longrightarrow> p \<notin> span_pages (spans s x)" unfolding d_def by simp
      with False i2 [of p x] show ?thesis unfolding pm f3 by auto
    qed
  qed
  have c3: "\<forall>x \<in> live - {sp}. x < span_offset s'
              \<and> unat (start_page_id (spans s' x)) < 2 ^ 52 \<and> unat (num_pages (spans s' x)) < 2 ^ 52"
    unfolding f2 f3 using bnd by simp
  have c4: "mapped s' = (\<Union>x \<in> live - {sp}. span_pages (spans s' x))"
  proof -
    have "(\<Union>x \<in> live. span_pages (spans s x)) = span_pages d \<union> (\<Union>x \<in> live - {sp}. span_pages (spans s x))"
      using lv unfolding d_def by blast
    moreover have "span_pages d \<inter> (\<Union>x \<in> live - {sp}. span_pages (spans s x)) = {}"
      using disj by blast
    ultimately show ?thesis unfolding f1 f3 mp by blast
  qed
  show ?thesis
    unfolding st page_heap_inv_def page_index_inv_def using c1 c2 c3 c4 by simp
qed

lemma heap_step_inv:
  "page_heap_inv st \<Longrightarrow> op_admissible st x \<Longrightarrow> page_heap_inv (heap_step st x)"
  by (cases st; cases x) (simp_all only: allocate_step_inv deallocate_step_inv)

lemma run_inv:
  "page_heap_inv st \<Longrightarrow> run_admissible st xs \<Longrightarrow> page_heap_inv (foldl heap_step st xs)"
  by (induction xs arbitrary: st) (simp_all add: heap_step_inv)

lemma page_heap_inv_index: "page_heap_inv st \<Longrightarrow> page_index_inv st"
  by (cases st) (simp add: page_heap_inv_def)

lemma heap_step_alloc_ok:
  assumes "push_bit PAGE_SHIFT n \<noteq> 0" "span_offset s + sizeof_Span \<le> sizeof_span_memory"
  shows "snd (heap_step (s, live) (AllocateSpan n (Some a))) = insert (span_offset s) live"
    and "mapped (fst (heap_step (s, live) (AllocateSpan n (Some a))))
           = mapped s \<union> pages_of a (push_bit PAGE_SHIFT n)"
    and "span_offset (fst (heap_step (s, live) (AllocateSpan n (Some a)))) = span_offset s + sizeof_Span"
    and "spans (fst (heap_step (s, live) (AllocateSpan n (Some a)))) = (spans s)(span_offset s :=
           \<lparr>start_page_id = drop_bit PAGE_SHIFT a, num_pages = n,
            next_span = None, prev_span = None, is_free = False\<rparr>)"
  by (simp_all add: allocateSpan_success [OF assms])

lemma heap_step_alloc_none: "heap_step (s, live) (AllocateSpan n None) = (s, live)"
  by (simp add: allocateSpan_def mmap_def)

lemma heap_step_dealloc:
  shows "snd (heap_step (s, live) (DeallocateSpan sp)) = live - {sp}"
    and "mapped (fst (heap_step (s, live) (DeallocateSpan sp)))
           = mapped s - pages_of (push_bit PAGE_SHIFT (start_page_id (spans s sp)))
                                 (push_bit PAGE_SHIFT (num_pages (spans s sp)))"
    and "span_offset (fst (heap_step (s, live) (DeallocateSpan sp))) = span_offset s"
    and "spans (fst (heap_step (s, live) (DeallocateSpan sp))) = spans s"
  by (simp_all add: deallocateSpan_def munmap_def Let_def)

lemma small_ranges: "{0 ..< (2::nat)} = {0, 1}" "{0 ..< (1::nat)} = {0}" by auto

lemma example_counts:
  "(unat (8192 :: 64 word) + 4095) div 4096 = 2" "(unat (4096 :: 64 word) + 4095) div 4096 = 1"
  by simp_all

lemma example_shifts:
  "push_bit PAGE_SHIFT (2 :: 64 word) = 8192" "push_bit PAGE_SHIFT (1 :: 64 word) = 4096"
  "drop_bit PAGE_SHIFT (8192 :: 64 word) = 2" "drop_bit PAGE_SHIFT (4096 :: 64 word) = 1"
  by (simp_all add: PAGE_SHIFT_def drop_bit_eq_div)

lemma example_pages:
  "pages_of 8192 8192 = {2, 3}" "pages_of 4096 4096 = {1}" "pages_of 8192 4096 = {2}"
  unfolding pages_of_def example_counts example_shifts small_ranges by auto

lemma example_run_admissible: "run_admissible (initial_allocator scavenge_store, {}) example_run"
proof -
  let ?s0 = "initial_allocator scavenge_store"
  have s0: "mapped ?s0 = {}" "span_offset ?s0 = 0" by (simp_all add: initial_allocator_def)
  have room0: "span_offset ?s0 + sizeof_Span \<le> sizeof_span_memory"
    by (simp add: initial_allocator_def sizeof_Span_def sizeof_span_memory_def)
  have nz: "push_bit PAGE_SHIFT (2 :: 64 word) \<noteq> 0" "push_bit PAGE_SHIFT (1 :: 64 word) \<noteq> 0"
    unfolding example_shifts by simp_all
  define s1 where "s1 = fst (heap_step (?s0, {}) (AllocateSpan 2 (Some 8192)))"
  note A1 = heap_step_alloc_ok [OF nz(1) room0, of "{}" 8192]
  have l1: "snd (heap_step (?s0, {}) (AllocateSpan 2 (Some 8192))) = {0}"
    unfolding A1(1) s0 by simp
  have h1: "heap_step (?s0, {}) (AllocateSpan 2 (Some 8192)) = (s1, {0})"
    unfolding s1_def l1 [symmetric] by (rule prod.collapse [symmetric])
  have f1: "mapped s1 = {2, 3}" "span_offset s1 = 40"
    "start_page_id (spans s1 0) = 2" "num_pages (spans s1 0) = 2"
    unfolding s1_def A1 s0 example_shifts example_pages
    by (simp_all add: sizeof_Span_def)
  have room1: "span_offset s1 + sizeof_Span \<le> sizeof_span_memory"
    unfolding f1 by (simp add: sizeof_Span_def sizeof_span_memory_def)
  define s2 where "s2 = fst (heap_step (s1, {0}) (AllocateSpan 1 (Some 4096)))"
  note A2 = heap_step_alloc_ok [OF nz(2) room1, of "{0}" 4096]
  have l2: "snd (heap_step (s1, {0}) (AllocateSpan 1 (Some 4096))) = {40, 0}"
    unfolding A2(1) f1 by simp
  have h2: "heap_step (s1, {0}) (AllocateSpan 1 (Some 4096)) = (s2, {40, 0})"
    unfolding s2_def l2 [symmetric] by (rule prod.collapse [symmetric])
  have f2: "mapped s2 = {1, 2, 3}" "span_offset s2 = 80"
    "start_page_id (spans s2 0) = 2" "num_pages (spans s2 0) = 2"
    unfolding s2_def A2 f1 example_shifts example_pages
    by (auto simp: sizeof_Span_def f1)
  define s3 where "s3 = fst (heap_step (s2, {40, 0}) (DeallocateSpan 0))"
  note A3 = heap_step_dealloc [of s2 "{40, 0}" 0]
  have l3: "snd (heap_step (s2, {40, 0}) (DeallocateSpan 0)) = {40}"
    unfolding A3(1) by auto
  have h3: "heap_step (s2, {40, 0}) (DeallocateSpan 0) = (s3, {40})"
    unfolding s3_def l3 [symmetric] by (rule prod.collapse [symmetric])
  have f3: "mapped s3 = {1}"
    unfolding s3_def A3 f2 example_shifts example_pages by auto
  have a1: "op_admissible (?s0, {}) (AllocateSpan 2 (Some 8192))"
    unfolding op_admissible.simps mmap_result_ok_def example_shifts s0 by simp
  have a2: "op_admissible (s1, {0}) (AllocateSpan 1 (Some 4096))"
    unfolding op_admissible.simps mmap_result_ok_def example_shifts f1 by (simp add: example_pages)
  have a3: "op_admissible (s2, {40, 0}) (DeallocateSpan 0)" by simp
  have a4: "op_admissible (s3, {40}) (AllocateSpan 1 None)"
    by (simp add: mmap_result_ok_def)
  have a5: "op_admissible (s3, {40}) (AllocateSpan 1 (Some 8192))"
    unfolding op_admissible.simps mmap_result_ok_def example_shifts f3 by (simp add: example_pages)
  show ?thesis
    unfolding example_run_def
    by (simp only: run_admissible.simps h1 h2 h3 heap_step_alloc_none a1 a2 a3 a4 a5 simp_thms)
qed

text \<open>
  Claim C8. From the initial state, after any run of \<open>allocateSpan\<close> and
  \<open>deallocateSpan\<close> calls (page counts below \<open>2^52\<close>, \<open>mmap\<close> answering as the
  kernel may, \<open>deallocateSpan\<close> only on live spans), distinct live spans cover
  disjoint sets of page ids, and the index maps a page id to a span exactly when that
  span is live and covers the page: every covered page id has its one entry, and no
  page id belongs to two live spans.
\<close>

theorem page_index_invariant:
  assumes "run_admissible (initial_allocator m, {}) xs"
  shows "page_index_inv (foldl heap_step (initial_allocator m, {}) xs)"
  using assms by (intro page_heap_inv_index run_inv initial_page_heap_inv)

theorem page_index_invariant_witness:
  "run_admissible (initial_allocator scavenge_store, {}) example_run
   \<and> page_index_inv (foldl heap_step (initial_allocator scavenge_store, {}) example_run)"
  using page_index_invariant [OF example_run_admissible] example_run_admissible by blast

subsection \<open>Free lists in the store\<close>

declare find_tail.simps [simp del]

lemma chain_iff_walk: "chain m p xs \<longleftrightarrow> has_length m p (length xs) \<and> walk m p (length xs) = xs"
  by (induction xs arbitrary: p) auto

lemma has_length_chain: "has_length m p n \<longleftrightarrow> chain m p (walk m p n)"
  by (induction n arbitrary: p) auto

lemma length_walk [simp]: "length (walk m p n) = n"
  by (induction n arbitrary: p) auto

lemma chain_nonzero: "chain m p xs \<Longrightarrow> 0 \<notin> set xs"
  by (induction xs arbitrary: p) auto

lemma chain_unique: "chain m p xs \<Longrightarrow> chain m p ys \<Longrightarrow> xs = ys"
proof (induction xs arbitrary: p ys)
  case Nil
  then show ?case by (cases ys) auto
next
  case (Cons x xs)
  then show ?case by (cases ys) auto
qed

lemma chain_append:
  "chain m p (xs @ ys) \<Longrightarrow> \<exists>q. chain m q ys"
  by (induction xs arbitrary: p) auto

lemma chain_suffix_from:
  "chain m p (xs @ y # ys) \<Longrightarrow> chain m y (y # ys)"
  by (induction xs arbitrary: p) auto

lemma chain_distinct: "chain m p xs \<Longrightarrow> distinct xs"
proof (induction xs arbitrary: p)
  case Nil
  then show ?case by simp
next
  case (Cons x xs)
  have "x \<notin> set xs"
  proof
    assume "x \<in> set xs"
    then obtain as bs where s: "xs = as @ x # bs" by (auto simp: in_set_conv_decomp)
    from Cons.prems have c: "chain m x (x # xs)" by auto
    then have "chain m (m x) (as @ x # bs)" unfolding s by simp
    then have "chain m x (x # bs)" by (rule chain_suffix_from)
    with c have "x # xs = x # bs" by (rule chain_unique)
    then show False unfolding s by simp
  qed
  with Cons show ?case by auto
qed

lemma chain_update: "a \<notin> set xs \<Longrightarrow> chain (m(a := v)) p xs = chain m p xs"
  by (induction xs arbitrary: p) auto

lemma chain_frame: "(\<And>x. x \<in> set xs \<Longrightarrow> m' x = m x) \<Longrightarrow> chain m' p xs = chain m p xs"
  by (induction xs arbitrary: p) auto

lemma chain_splice:
  "chain m p (xs @ [t]) \<Longrightarrow> chain m q ys \<Longrightarrow> t \<notin> set xs \<Longrightarrow> t \<notin> set ys \<Longrightarrow>
   chain (m(t := q)) p (xs @ [t] @ ys)"
  by (induction xs arbitrary: p) (auto simp: chain_update)

lemma chain_hd: "chain m p xs \<Longrightarrow> xs \<noteq> [] \<Longrightarrow> p = hd xs"
  by (cases xs) auto

lemma chain_drop: "chain m p xs \<Longrightarrow> n < length xs \<Longrightarrow> chain m (xs ! n) (drop n xs)"
proof (induction xs arbitrary: p n)
  case Nil
  then show ?case by simp
next
  case (Cons x xs)
  show ?case
  proof (cases n)
    case 0
    with Cons.prems show ?thesis by auto
  next
    case (Suc k)
    with Cons show ?thesis by auto
  qed
qed

lemma chain_next: "chain m p xs \<Longrightarrow> Suc n < length xs \<Longrightarrow> m (xs ! n) = xs ! Suc n"
  using chain_drop [of m p xs n] by (auto simp: Cons_nth_drop_Suc [symmetric])

lemma chain_last_next: "chain m p xs \<Longrightarrow> xs \<noteq> [] \<Longrightarrow> m (last xs) = 0"
  by (induction xs arbitrary: p) (auto split: if_splits)

lemma find_tail_chain:
  "chain m p xs \<Longrightarrow> xs \<noteq> [] \<Longrightarrow> i \<le> k \<Longrightarrow>
   find_tail m p i k = xs ! min (nat (k - i)) (length xs - 1)"
proof (induction xs arbitrary: p i)
  case Nil
  then show ?case by simp
next
  case (Cons x xs)
  from Cons.prems have px: "p = x" "x \<noteq> 0" and rest: "chain m (m x) xs" by auto
  consider (single) "xs = []" | (more) y ys where "xs = y # ys" by (cases xs) auto
  then show ?case
  proof cases
    case single
    with rest have "m x = 0" by simp
    then show ?thesis unfolding px single by (subst find_tail.simps) simp
  next
    case (more y ys)
    with rest have nx: "m x \<noteq> 0" by auto
    show ?thesis
    proof (cases "i < k")
      case True
      have "find_tail m p i k = find_tail m (m x) (i + 1) k"
        unfolding px using True px nx by (subst find_tail.simps) simp
      also have "\<dots> = xs ! min (nat (k - (i + 1))) (length xs - 1)"
        using rest more True by (intro Cons.IH) auto
      also have "\<dots> = (x # xs) ! min (nat (k - i)) (length (x # xs) - 1)"
      proof -
        have "nat (k - i) = Suc (nat (k - (i + 1)))" using True by simp
        then show ?thesis using more by simp
      qed
      finally show ?thesis .
    next
      case False
      then have "find_tail m p i k = p" by (subst find_tail.simps) simp
      with False Cons.prems(3) px show ?thesis by simp
    qed
  qed
qed

lemma chain_cut:
  "chain m p (as @ t # ds) \<Longrightarrow> t \<notin> set as \<Longrightarrow> chain (m(t := 0)) p (as @ [t])"
proof (induction as arbitrary: p)
  case Nil
  then show ?case by auto
next
  case (Cons x as)
  then show ?case by auto
qed

lemma chain_rest: "chain m p (as @ t # ds) \<Longrightarrow> chain m (m t) ds"
  using chain_suffix_from [of m p as t ds] by auto

lemma chain_split_at:
  assumes c: "chain m p xs" and n: "0 < n" "n \<le> length xs"
  shows "chain (m(xs ! (n - 1) := 0)) p (take n xs)"
    and "chain (m(xs ! (n - 1) := 0)) (m (xs ! (n - 1))) (drop n xs)"
proof -
  define t where "t = xs ! (n - 1)"
  define as where "as = take (n - 1) xs"
  define ds where "ds = drop n xs"
  have "take n xs = take (Suc (n - 1)) xs" using n by simp
  also have "\<dots> = as @ [t]"
    unfolding as_def t_def using n by (intro take_Suc_conv_app_nth) simp
  finally have tk: "take n xs = as @ [t]" .
  have "xs = take n xs @ drop n xs" by simp
  then have xs: "xs = as @ t # ds" unfolding tk ds_def by simp
  have "distinct (as @ t # ds)" using chain_distinct [OF c] unfolding xs .
  then have t1: "t \<notin> set as" and t2: "t \<notin> set ds" by auto
  from c have c': "chain m p (as @ t # ds)" unfolding xs .
  show "chain (m(xs ! (n - 1) := 0)) p (take n xs)"
    unfolding tk t_def [symmetric] by (rule chain_cut [OF c' t1])
  show "chain (m(xs ! (n - 1) := 0)) (m (xs ! (n - 1))) (drop n xs)"
    unfolding t_def [symmetric] ds_def [symmetric]
    using chain_rest [OF c'] t2 by (simp add: chain_update)
qed

lemma transfer_blocks_effect:
  assumes c: "chain (mem s) (tc_list (transfer_caches s k)) xs"
    and cnt: "tc_count (transfer_caches s k) = int (length xs)"
    and ne: "xs \<noteq> []"
  defines "n \<equiv> min (length xs) 32"
  defines "t \<equiv> xs ! (n - 1)"
  shows "transfer_blocks s my_cache k =
           (s\<lparr>mem := (mem s)(t := 0),
              transfer_caches := (transfer_caches s)(k :=
                (transfer_caches s k)\<lparr>tc_list := mem s t, tc_count := int (length xs) - int n\<rparr>)\<rparr>,
            my_cache\<lparr>free_lists := (free_lists my_cache)(k := hd xs),
                     list_lengths := (list_lengths my_cache)(k := int n)\<rparr>)"
    and "chain ((mem s)(t := 0)) (hd xs) (take n xs)"
    and "chain ((mem s)(t := 0)) (mem s t) (drop n xs)"
proof -
  have n: "0 < n" "n \<le> length xs" using ne by (auto simp: n_def)
  have hd: "tc_list (transfer_caches s k) = hd xs" using c ne by (rule chain_hd)
  have bt: "min (tc_count (transfer_caches s k)) 32 = int n"
    unfolding cnt n_def by simp
  have "find_tail (mem s) (hd xs) 1 (int n) = xs ! min (nat (int n - 1)) (length xs - 1)"
    using c ne n unfolding hd by (intro find_tail_chain) auto
  also have "min (nat (int n - 1)) (length xs - 1) = n - 1" using n by auto
  finally have ft: "find_tail (mem s) (hd xs) 1 (int n) = t" unfolding t_def .
  have "t \<in> set xs" unfolding t_def using n by (intro nth_mem) auto
  then have tnz: "t \<noteq> 0" using chain_nonzero [OF c] by auto
  show "transfer_blocks s my_cache k =
           (s\<lparr>mem := (mem s)(t := 0),
              transfer_caches := (transfer_caches s)(k :=
                (transfer_caches s k)\<lparr>tc_list := mem s t, tc_count := int (length xs) - int n\<rparr>)\<rparr>,
            my_cache\<lparr>free_lists := (free_lists my_cache)(k := hd xs),
                     list_lengths := (list_lengths my_cache)(k := int n)\<rparr>)"
    unfolding transfer_blocks_def Let_def bt hd ft using tnz by (simp add: cnt)
  from c have c': "chain (mem s) (hd xs) xs" unfolding hd .
  show "chain ((mem s)(t := 0)) (hd xs) (take n xs)"
    unfolding t_def by (rule chain_split_at(1) [OF c' n])
  show "chain ((mem s)(t := 0)) (mem s t) (drop n xs)"
    unfolding t_def by (rule chain_split_at(2) [OF c' n])
qed

lemma transfer_blocks_empty:
  assumes "tc_list (transfer_caches s k) = 0"
  shows "transfer_blocks s my_cache k = (s, my_cache)"
proof -
  have "find_tail (mem s) 0 1 (min (tc_count (transfer_caches s k)) 32) = 0"
    by (subst find_tail.simps) simp
  then show ?thesis unfolding transfer_blocks_def Let_def assms by simp
qed

lemma carve_Suc:
  "carve start bs (Suc n) st = carve_step start bs (carve start bs n st) n"
  by (simp add: carve_def)

lemma carve_0: "carve start bs 0 st = st"
  by (simp add: carve_def)

lemma carve_effect:
  assumes "chain m h xs"
    and "\<forall>i<n. block_at start bs i \<noteq> 0 \<and> block_at start bs i \<notin> set xs"
    and "inj_on (block_at start bs) {0 ..< n}"
  shows "chain (fst (carve start bs n (m, h))) (snd (carve start bs n (m, h)))
           (rev (map (block_at start bs) [0 ..< n]) @ xs)
         \<and> (\<forall>a. a \<notin> block_at start bs ` {0 ..< n} \<longrightarrow> fst (carve start bs n (m, h)) a = m a)"
  using assms(2,3)
proof (induction n)
  case 0
  then show ?case using assms(1) by (simp add: carve_0)
next
  case (Suc n)
  let ?b = "block_at start bs"
  let ?st = "carve start bs n (m, h)"
  have IH: "chain (fst ?st) (snd ?st) (rev (map ?b [0 ..< n]) @ xs)"
    and fr: "\<forall>a. a \<notin> ?b ` {0 ..< n} \<longrightarrow> fst ?st a = m a"
    using Suc.IH Suc.prems by (auto simp: inj_on_def)
  have new: "?b n \<noteq> 0" "?b n \<notin> set xs" using Suc.prems(1) by auto
  have notold: "?b n \<notin> ?b ` {0 ..< n}"
  proof
    assume "?b n \<in> ?b ` {0 ..< n}"
    then obtain i where "i < n" "?b n = ?b i" by auto
    with inj_onD [OF Suc.prems(2), of n i] show False by simp
  qed
  have step: "carve start bs (Suc n) (m, h) = ((fst ?st)(?b n := snd ?st), ?b n)"
    by (simp add: carve_Suc carve_step_def block_at_def Let_def)
  have nin: "?b n \<notin> set (rev (map ?b [0 ..< n]) @ xs)" using notold new by auto
  have "chain ((fst ?st)(?b n := snd ?st)) (snd ?st) (rev (map ?b [0 ..< n]) @ xs)"
    using IH unfolding chain_update [OF nin] .
  then have C1: "chain ((fst ?st)(?b n := snd ?st)) (?b n) (rev (map ?b [0 ..< Suc n]) @ xs)"
    using new by simp
  have C2: "\<forall>a. a \<notin> ?b ` {0 ..< Suc n} \<longrightarrow> ((fst ?st)(?b n := snd ?st)) a = m a"
  proof (intro allI impI)
    fix a assume a: "a \<notin> ?b ` {0 ..< Suc n}"
    then have "a \<noteq> ?b n" "a \<notin> ?b ` {0 ..< n}" by auto
    with fr show "((fst ?st)(?b n := snd ?st)) a = m a" by simp
  qed
  show ?case unfolding step fst_conv snd_conv using C1 C2 by (rule conjI)
qed

lemma release_effect:
  assumes k: "k < 8"
    and cy: "chain (mem s) (free_lists my_cache k) ys"
    and len: "list_lengths my_cache k = int (length ys)"
    and ne: "ys \<noteq> []"
    and cx: "chain (mem s) (tc_list (transfer_caches s k)) xs"
    and disj: "set ys \<inter> set xs = {}"
  shows "releaseToTransferCache s my_cache k =
           (s\<lparr>mem := (mem s)(last ys := tc_list (transfer_caches s k)),
              transfer_caches := (transfer_caches s)(k :=
                (transfer_caches s k)\<lparr>tc_list := hd ys,
                   tc_count := tc_count (transfer_caches s k) + int (length ys)\<rparr>)\<rparr>,
            my_cache\<lparr>free_lists := (free_lists my_cache)(k := 0),
                     list_lengths := (list_lengths my_cache)(k := 0)\<rparr>)"
    and "chain ((mem s)(last ys := tc_list (transfer_caches s k))) (hd ys) (ys @ xs)"
proof -
  have hd: "free_lists my_cache k = hd ys" using cy ne by (rule chain_hd)
  have "find_tail (mem s) (hd ys) 1 (int (length ys)) = ys ! min (nat (int (length ys) - 1)) (length ys - 1)"
    using cy ne unfolding hd by (intro find_tail_chain) (auto simp: Suc_le_eq)
  also have "min (nat (int (length ys) - 1)) (length ys - 1) = length ys - 1" by simp
  also have "ys ! (length ys - 1) = last ys" using ne by (simp add: last_conv_nth)
  finally have ft: "find_tail (mem s) (hd ys) 1 (int (length ys)) = last ys" .
  have "last ys \<in> set ys" using ne by simp
  then have lnz: "last ys \<noteq> 0" using chain_nonzero [OF cy] by auto
  have lz: "list_lengths my_cache k \<noteq> 0" using len ne by simp
  show "releaseToTransferCache s my_cache k =
           (s\<lparr>mem := (mem s)(last ys := tc_list (transfer_caches s k)),
              transfer_caches := (transfer_caches s)(k :=
                (transfer_caches s k)\<lparr>tc_list := hd ys,
                   tc_count := tc_count (transfer_caches s k) + int (length ys)\<rparr>)\<rparr>,
            my_cache\<lparr>free_lists := (free_lists my_cache)(k := 0),
                     list_lengths := (list_lengths my_cache)(k := 0)\<rparr>)"
    using k lz lnz unfolding releaseToTransferCache_def Let_def hd len ft by simp
  have ys: "ys = butlast ys @ [last ys]" using ne by simp
  have d: "distinct ys" using cy by (rule chain_distinct)
  then have "distinct (butlast ys @ [last ys])" using ys by simp
  then have l1: "last ys \<notin> set (butlast ys)" by simp
  have l2: "last ys \<notin> set xs" using disj \<open>last ys \<in> set ys\<close> by auto
  have "chain (mem s) (hd ys) (butlast ys @ [last ys])" using cy ys unfolding hd by simp
  from chain_splice [OF this cx l1 l2]
  show "chain ((mem s)(last ys := tc_list (transfer_caches s k))) (hd ys) (ys @ xs)"
    using ys by (metis append.assoc)
qed

lemma unat_block_size:
  "k < 8 \<Longrightarrow> unat (getClassSizeFromIndex k + sizeof_BlockHeader) = 2 ^ (k + 3) + 8"
  by (drule index_cases) (auto simp: getClassSizeFromIndex_simps sizeof_BlockHeader_def)

lemma block_size_bounds:
  assumes "k < 8"
  shows "16 \<le> unat (getClassSizeFromIndex k + sizeof_BlockHeader)"
    and "unat (getClassSizeFromIndex k + sizeof_BlockHeader) \<le> 1032"
  using assms by (auto dest!: index_cases simp: getClassSizeFromIndex_simps sizeof_BlockHeader_def)

lemma class_size_nonzero: "k < 8 \<Longrightarrow> getClassSizeFromIndex k \<noteq> 0"
  by (drule index_cases) (auto simp: getClassSizeFromIndex_simps)

lemma unat_num_blocks:
  assumes "k < 8"
  shows "unat (4096 div (getClassSizeFromIndex k + sizeof_BlockHeader))
           = 4096 div unat (getClassSizeFromIndex k + sizeof_BlockHeader)"
    and "4096 div (getClassSizeFromIndex k + sizeof_BlockHeader) \<noteq> 0"
proof -
  let ?bs = "getClassSizeFromIndex k + sizeof_BlockHeader"
  show u: "unat (4096 div ?bs) = 4096 div unat ?bs" by (simp add: unat_div_distrib)
  have "0 < 4096 div unat ?bs"
    using block_size_bounds [OF assms] by (simp add: div_greater_zero_iff)
  then have "unat (4096 div ?bs) \<noteq> 0" unfolding u by simp
  then show "4096 div ?bs \<noteq> 0" by auto
qed

lemma less_div_mult: "i < N div b \<Longrightarrow> 0 < b \<Longrightarrow> i * b < (N::nat)"
proof -
  assume "i < N div b" "0 < b"
  then have "Suc i \<le> N div b" by simp
  then have "Suc i * b \<le> N"
    using less_eq_div_iff_mult_less_eq [OF \<open>0 < b\<close>, of "Suc i" N] by blast
  with \<open>0 < b\<close> show ?thesis by simp
qed

lemma aligned_unat: "a AND 4095 = (0 :: 64 word) \<Longrightarrow> unat a mod 4096 = 0"
proof -
  assume "a AND 4095 = 0"
  then have "take_bit 12 a = 0" by (simp add: take_bit_eq_mask mask_eq_exp_minus_1)
  then have "take_bit 12 (unat a) = 0" by (metis unsigned_take_bit_eq unsigned_0)
  then show ?thesis by (simp add: take_bit_eq_mod)
qed

lemma unat_block_at:
  assumes "unat a + 4096 \<le> 2 ^ 64" "i * unat bs < 4096" "0 < unat bs"
  shows "unat (block_at a bs i) = unat a + i * unat bs"
proof -
  have le: "i \<le> i * unat bs" using assms(3) by (cases "unat bs") auto
  have i: "i < 4096" by (rule le_less_trans [OF le assms(2)])
  then have "unat (of_nat i * bs :: 64 word) = i * unat bs"
    using assms(2) by (simp add: unat_word_ariths unat_of_nat)
  then show ?thesis
    unfolding block_at_def using assms(1,2) by (simp add: unat_word_ariths)
qed

lemma blocks_in_page:
  assumes al: "a AND 4095 = 0" and nw: "unat a + 4096 \<le> 2 ^ 64" and nz: "a \<noteq> 0"
    and bs: "0 < unat bs" and i: "i < 4096 div unat bs"
  shows "block_at a bs i \<noteq> 0"
    and "drop_bit PAGE_SHIFT (block_at a bs i) = drop_bit PAGE_SHIFT a"
    and "unat (block_at a bs i) = unat a + i * unat bs"
proof -
  have lt: "i * unat bs < 4096"
    using i bs by (rule less_div_mult)
  show u: "unat (block_at a bs i) = unat a + i * unat bs"
    by (rule unat_block_at [OF nw lt bs])
  have "0 < unat a" using nz by (simp add: unat_gt_0)
  then have "unat (block_at a bs i) \<noteq> 0" unfolding u by simp
  then show "block_at a bs i \<noteq> 0" by auto
  have "(unat a + i * unat bs) div 4096 = unat a div 4096"
    using aligned_unat [OF al] lt by (auto simp: mod_eq_0_iff_dvd elim!: dvdE)
  then show "drop_bit PAGE_SHIFT (block_at a bs i) = drop_bit PAGE_SHIFT a"
    by (simp add: word_unat_eq_iff unat_drop_bit_page u)
qed

lemma blocks_inj:
  assumes nw: "unat a + 4096 \<le> 2 ^ 64" and bs: "0 < unat bs"
  shows "inj_on (block_at a bs) {0 ..< 4096 div unat bs}"
proof (rule inj_onI)
  fix i j assume i: "i \<in> {0 ..< 4096 div unat bs}" and j: "j \<in> {0 ..< 4096 div unat bs}"
    and e: "block_at a bs i = block_at a bs j"
  have "i * unat bs < 4096" "j * unat bs < 4096"
    using i j bs by (simp_all add: less_div_mult)
  then have ui: "unat (block_at a bs i) = unat a + i * unat bs"
    and uj: "unat (block_at a bs j) = unat a + j * unat bs"
    using unat_block_at [OF nw _ bs] by blast+
  from e have "unat (block_at a bs i) = unat (block_at a bs j)" by (rule arg_cong)
  then have "i * unat bs = j * unat bs" unfolding ui uj by simp
  with bs show "i = j" by simp
qed

lemma one_page_nonzero: "push_bit PAGE_SHIFT (1 :: 64 word) \<noteq> 0"
  by (simp add: PAGE_SHIFT_def)

lemma one_page_len: "push_bit PAGE_SHIFT (1 :: 64 word) = 4096"
  by (simp add: PAGE_SHIFT_def)

lemma record_one_page: "record_pages pm start sp (unat (1 :: 64 word)) = pm(start \<mapsto> sp)"
  by simp

lemma fetch_refill:
  assumes k: "k < 8"
    and empty: "tc_list (transfer_caches s k) = 0" "tc_count (transfer_caches s k) = 0"
    and al: "a AND 4095 = 0" and nz: "a \<noteq> 0" and nw: "unat a + 4096 \<le> 2 ^ 64"
    and pool: "span_offset s + sizeof_Span \<le> sizeof_span_memory"
  defines "bs \<equiv> getClassSizeFromIndex k + sizeof_BlockHeader"
  defines "n \<equiv> 4096 div unat bs"
  defines "blocks \<equiv> rev (map (block_at a bs) [0 ..< n])"
  defines "m1 \<equiv> fst (carve a bs n (mem s, 0))"
  defines "s2 \<equiv> s\<lparr>mapped := mapped s \<union> pages_of a (push_bit PAGE_SHIFT 1),
              span_offset := span_offset s + sizeof_Span,
              spans := (spans s)(span_offset s :=
                 \<lparr>start_page_id = drop_bit PAGE_SHIFT a, num_pages = 1,
                  next_span = None, prev_span = None, is_free = False\<rparr>),
              page_map := (page_map s)(drop_bit PAGE_SHIFT a \<mapsto> span_offset s),
              mem := m1,
              transfer_caches := (transfer_caches s)(k :=
                 (transfer_caches s k)\<lparr>tc_list := hd blocks, tc_count := int n\<rparr>)\<rparr>"
  shows "fetchFromTransferCache s my_cache k (Some a) = transfer_blocks s2 my_cache k"
    and "chain m1 (hd blocks) blocks"
    and "\<forall>x. x \<notin> block_at a bs ` {0 ..< n} \<longrightarrow> m1 x = mem s x"
    and "0 < n" and "length blocks = n"
proof -
  have bpos: "0 < unat bs" using block_size_bounds(1) [OF k] unfolding bs_def by simp
  have n0: "unat (4096 div bs) = n" "4096 div bs \<noteq> 0"
    using unat_num_blocks [OF k] unfolding bs_def n_def by simp_all
  show npos: "0 < n" using n0 by (metis unat_gt_0)
  show len: "length blocks = n" unfolding blocks_def by simp
  have ne: "blocks \<noteq> []" using npos len by auto
  have fresh: "\<forall>i<n. block_at a bs i \<noteq> 0 \<and> block_at a bs i \<notin> set []"
    using blocks_in_page(1) [OF al nw nz bpos] unfolding n_def by simp
  have inj: "inj_on (block_at a bs) {0 ..< n}"
    unfolding n_def by (rule blocks_inj [OF nw bpos])
  have c0: "chain (mem s) 0 []" by simp
  from carve_effect [OF c0 fresh inj]
  have ch: "chain m1 (snd (carve a bs n (mem s, 0))) blocks"
    and fr: "\<forall>x. x \<notin> block_at a bs ` {0 ..< n} \<longrightarrow> m1 x = mem s x"
    unfolding m1_def blocks_def by simp_all
  have hd: "snd (carve a bs n (mem s, 0)) = hd blocks" using ch ne by (rule chain_hd)
  show "chain m1 (hd blocks) blocks" using ch unfolding hd .
  show "\<forall>x. x \<notin> block_at a bs ` {0 ..< n} \<longrightarrow> m1 x = mem s x" by (rule fr)
  have cv: "carve a bs n (mem s, 0) = (m1, hd blocks)"
    unfolding m1_def hd [symmetric] by simp
  have cz: "getClassSizeFromIndex k \<noteq> 0" by (rule class_size_nonzero [OF k])
  show "fetchFromTransferCache s my_cache k (Some a) = transfer_blocks s2 my_cache k"
    unfolding fetchFromTransferCache_def Let_def
      allocateSpan_success [OF one_page_nonzero pool] bs_def [symmetric]
    using k empty cz n0 cv page_align [OF al]
    by (simp add: s2_def record_one_page)
qed

subsection \<open>Refilling a transfer cache\<close>

lemma pages_of_4096: "pages_of a 4096 = {drop_bit PAGE_SHIFT a}"
  unfolding pages_of_def by simp

lemma pages_of_one_page: "pages_of a (push_bit PAGE_SHIFT 1) = {drop_bit PAGE_SHIFT a}"
  unfolding one_page_len by (rule pages_of_4096)

lemma refill_effect:
  assumes k: "k < 8"
    and empty: "tc_list (transfer_caches s k) = 0" "tc_count (transfer_caches s k) = 0"
    and os: "mmap_result_ok s (push_bit PAGE_SHIFT 1) (Some a)"
    and pool: "span_offset s + sizeof_Span \<le> sizeof_span_memory"
  defines "bs \<equiv> getClassSizeFromIndex k + sizeof_BlockHeader"
  defines "n \<equiv> max 1 (4096 div unat bs)"
  defines "blocks \<equiv> rev (map (block_at a bs) [0 ..< n])"
  defines "moved \<equiv> min n 32"
  shows "case fetchFromTransferCache s my_cache k (Some a) of (s', c') \<Rightarrow>
           span_offset s' = span_offset s + sizeof_Span
           \<and> spans s' = (spans s)(span_offset s :=
                 \<lparr>start_page_id = drop_bit PAGE_SHIFT a, num_pages = 1,
                  next_span = None, prev_span = None, is_free = False\<rparr>)
           \<and> page_map s' = (page_map s)(drop_bit PAGE_SHIFT a \<mapsto> span_offset s)
           \<and> mapped s' = mapped s \<union> {drop_bit PAGE_SHIFT a}
           \<and> chain (mem s') (free_lists c' k) (take moved blocks)
           \<and> list_lengths c' k = int moved
           \<and> chain (mem s') (tc_list (transfer_caches s' k)) (drop moved blocks)
           \<and> tc_count (transfer_caches s' k) = int n - int moved
           \<and> (\<forall>j. j \<noteq> k \<longrightarrow> transfer_caches s' j = transfer_caches s j
                  \<and> free_lists c' j = free_lists my_cache j
                  \<and> list_lengths c' j = list_lengths my_cache j)"
proof -
  from os have al: "a AND 4095 = 0" and nz: "a \<noteq> 0" and nw: "unat a + 4096 \<le> 2 ^ 64"
    unfolding mmap_result_ok_def one_page_len by simp_all
  define n' where "n' = 4096 div unat bs"
  note F = fetch_refill [OF k empty al nz nw pool, folded bs_def, folded n'_def]
  have nn: "n = n'" unfolding n_def n'_def [symmetric] using F(4) by simp
  note F' = F [folded nn, folded blocks_def]
  define m1 where "m1 = fst (carve a bs n (mem s, 0))"
  define s2 where "s2 = s\<lparr>mapped := mapped s \<union> pages_of a (push_bit PAGE_SHIFT 1),
              span_offset := span_offset s + sizeof_Span,
              spans := (spans s)(span_offset s :=
                 \<lparr>start_page_id = drop_bit PAGE_SHIFT a, num_pages = 1,
                  next_span = None, prev_span = None, is_free = False\<rparr>),
              page_map := (page_map s)(drop_bit PAGE_SHIFT a \<mapsto> span_offset s),
              mem := m1,
              transfer_caches := (transfer_caches s)(k :=
                 (transfer_caches s k)\<lparr>tc_list := hd blocks, tc_count := int n\<rparr>)\<rparr>"
  have f: "fetchFromTransferCache s my_cache k (Some a) = transfer_blocks s2 my_cache k"
    using F'(1) unfolding s2_def m1_def .
  have ch: "chain m1 (hd blocks) blocks" using F'(2) unfolding m1_def .
  have len: "length blocks = n" by (rule F'(5))
  have ne: "blocks \<noteq> []" using len F'(4) by auto
  have s2f: "mem s2 = m1" "tc_list (transfer_caches s2 k) = hd blocks"
    "tc_count (transfer_caches s2 k) = int (length blocks)"
    "span_offset s2 = span_offset s + sizeof_Span"
    "spans s2 = (spans s)(span_offset s :=
                 \<lparr>start_page_id = drop_bit PAGE_SHIFT a, num_pages = 1,
                  next_span = None, prev_span = None, is_free = False\<rparr>)"
    "page_map s2 = (page_map s)(drop_bit PAGE_SHIFT a \<mapsto> span_offset s)"
    "\<And>j. j \<noteq> k \<Longrightarrow> transfer_caches s2 j = transfer_caches s j"
    "mapped s2 = mapped s \<union> {drop_bit PAGE_SHIFT a}"
    unfolding s2_def pages_of_one_page by (simp_all add: len)
  have c2: "chain (mem s2) (tc_list (transfer_caches s2 k)) blocks"
    unfolding s2f using ch .
  note T = transfer_blocks_effect [OF c2 s2f(3) ne, unfolded len, folded moved_def]
  show ?thesis
    unfolding f T(1) using T(2,3) s2f(4-8) by (simp add: s2f(1))
qed

text \<open>
  Claim C2. A refill for class \<open>k\<close> whose central list is empty, with the page heap
  succeeding, takes exactly one span of one page from the page heap (one descriptor,
  one index entry), carves it into \<open>n = max 1 (4096 div block size)\<close> blocks of
  \<open>getClassSizeFromIndex k + 8\<close> bytes each, block \<open>i\<close> at \<open>a + i * block size\<close>,
  and pushes them all on the central list, the last block first. Then the first
  \<open>min n 32\<close> blocks of that list become the thread cache's list, cut off by a null
  link, with \<open>list_lengths\<close> set to their number; the remaining blocks stay on the
  central list and the central count is \<open>n\<close> less the number moved. The other
  classes are untouched.
\<close>

theorem refill_from_page_heap:
  assumes k: "k < 8"
    and empty: "tc_list (transfer_caches s k) = 0" "tc_count (transfer_caches s k) = 0"
    and os: "mmap_result_ok s (push_bit PAGE_SHIFT 1) (Some a)"
    and pool: "span_offset s + sizeof_Span \<le> sizeof_span_memory"
  defines "bs \<equiv> getClassSizeFromIndex k + sizeof_BlockHeader"
  defines "n \<equiv> max 1 (4096 div unat bs)"
  defines "blocks \<equiv> rev (map (block_at a bs) [0 ..< n])"
  defines "moved \<equiv> min n 32"
  shows "case fetchFromTransferCache s my_cache k (Some a) of (s', c') \<Rightarrow>
           span_offset s' = span_offset s + sizeof_Span
           \<and> spans s' = (spans s)(span_offset s :=
                 \<lparr>start_page_id = drop_bit PAGE_SHIFT a, num_pages = 1,
                  next_span = None, prev_span = None, is_free = False\<rparr>)
           \<and> page_map s' = (page_map s)(drop_bit PAGE_SHIFT a \<mapsto> span_offset s)
           \<and> mapped s' = mapped s \<union> {drop_bit PAGE_SHIFT a}
           \<and> chain (mem s') (free_lists c' k) (take moved blocks)
           \<and> list_lengths c' k = int moved
           \<and> chain (mem s') (tc_list (transfer_caches s' k)) (drop moved blocks)
           \<and> tc_count (transfer_caches s' k) = int n - int moved
           \<and> (\<forall>j. j \<noteq> k \<longrightarrow> transfer_caches s' j = transfer_caches s j
                  \<and> free_lists c' j = free_lists my_cache j
                  \<and> list_lengths c' j = list_lengths my_cache j)"
  unfolding bs_def n_def blocks_def moved_def
  using k empty os pool by (rule refill_effect)

theorem refill_from_page_heap_witness:
  "mmap_result_ok (initial_allocator scavenge_store) (push_bit PAGE_SHIFT 1) (Some 4096)
   \<and> tc_count (transfer_caches (initial_allocator scavenge_store) 7) = 0
   \<and> (case fetchFromTransferCache (initial_allocator scavenge_store) initial_cache 7 (Some 4096)
       of (s', c') \<Rightarrow>
         span_offset s' = 40 \<and> page_map s' = [1 \<mapsto> 0]
         \<and> chain (mem s') (free_lists c' 7) [6160, 5128, 4096] \<and> list_lengths c' 7 = 3
         \<and> tc_list (transfer_caches s' 7) = 0 \<and> tc_count (transfer_caches s' 7) = 0)"
proof -
  let ?s = "initial_allocator scavenge_store"
  have k: "(7 :: nat) < 8" by simp
  have e: "tc_list (transfer_caches ?s 7) = 0" "tc_count (transfer_caches ?s 7) = 0"
    by (simp_all add: initial_allocator_def)
  have os: "mmap_result_ok ?s (push_bit PAGE_SHIFT 1) (Some 4096)"
    unfolding mmap_result_ok_def one_page_len by (simp add: initial_allocator_def)
  have pool: "span_offset ?s + sizeof_Span \<le> sizeof_span_memory"
    by (simp add: initial_allocator_def sizeof_Span_def sizeof_span_memory_def)
  have bs: "getClassSizeFromIndex 7 + sizeof_BlockHeader = 1032"
    by (simp add: getClassSizeFromIndex_simps sizeof_BlockHeader_def)
  have n: "max 1 (4096 div unat (1032 :: 64 word)) = 3" by simp
  have "[0 ..< Suc (Suc (Suc 0))] = [0, 1, 2]" by simp
  then have up: "[0 ..< 3] = [0, 1, 2]" by (simp add: numeral_3_eq_3)
  have blocks: "rev (map (block_at 4096 1032) [0 ..< 3]) = [6160, 5128, 4096]"
    unfolding up by (simp add: block_at_def)
  have mv: "min (3 :: nat) 32 = 3" by simp
  have sf: "span_offset ?s = 0" "page_map ?s = Map.empty" "drop_bit PAGE_SHIFT (4096 :: 64 word) = 1"
    "(0 :: nat) + sizeof_Span = 40"
    by (simp_all add: initial_allocator_def PAGE_SHIFT_def drop_bit_eq_div sizeof_Span_def)
  note R = refill_from_page_heap [OF k e os pool, of initial_cache,
      unfolded bs n blocks mv sf]
  show ?thesis
    using R os e(2) by (auto split: prod.splits)
qed

subsection \<open>The transfer-cache count invariant\<close>


lemma walk_chain: "chain m p xs \<Longrightarrow> walk m p (length xs) = xs"
  by (simp add: chain_iff_walk)

lemma central_lists_blocks:
  assumes "central_lists s xs" "k < 8"
  shows "central_blocks s k = xs k"
  using assms unfolding central_lists_def central_blocks_def
  by (auto simp: walk_chain)

lemma central_lists_inv: "central_lists s xs \<Longrightarrow> transfer_inv s"
proof -
  assume c: "central_lists s xs"
  have b: "\<And>k. k < 8 \<Longrightarrow> central_blocks s k = xs k"
    by (rule central_lists_blocks [OF c])
  have ok: "\<And>k. k < 8 \<Longrightarrow> count_ok (mem s) (transfer_caches s k)"
    using c unfolding central_lists_def count_ok_def by (auto simp: chain_iff_walk)
  show "transfer_inv s"
    unfolding transfer_inv_def using c ok b unfolding central_lists_def by auto
qed

lemma inv_central_lists: "transfer_inv s \<Longrightarrow> central_lists s (central_blocks s)"
  unfolding transfer_inv_def central_lists_def count_ok_def central_blocks_def
  by (auto simp: has_length_chain)

lemma transfer_inv_iff: "transfer_inv s \<longleftrightarrow> (\<exists>xs. central_lists s xs)"
  using central_lists_inv inv_central_lists by blast


lemma central_listsI:
  assumes "\<And>k. k < 8 \<Longrightarrow> chain (mem s) (tc_list (transfer_caches s k)) (xs k)"
    and "\<And>k. k < 8 \<Longrightarrow> tc_count (transfer_caches s k) = int (length (xs k))"
    and "\<And>k x. k < 8 \<Longrightarrow> x \<in> set (xs k) \<Longrightarrow> drop_bit PAGE_SHIFT x \<in> mapped s"
    and "\<And>j k. j < 8 \<Longrightarrow> k < 8 \<Longrightarrow> j \<noteq> k \<Longrightarrow> set (xs j) \<inter> set (xs k) = {}"
  shows "central_lists s xs"
  unfolding central_lists_def using assms by blast

lemma central_listsD:
  assumes "central_lists s xs" "k < 8"
  shows "chain (mem s) (tc_list (transfer_caches s k)) (xs k)"
    and "tc_count (transfer_caches s k) = int (length (xs k))"
    and "\<And>x. x \<in> set (xs k) \<Longrightarrow> drop_bit PAGE_SHIFT x \<in> mapped s"
    and "\<And>j. j < 8 \<Longrightarrow> j \<noteq> k \<Longrightarrow> set (xs j) \<inter> set (xs k) = {}"
  using assms unfolding central_lists_def by blast+

lemma transfer_blocks_lists:
  assumes c: "central_lists s xs" and k: "k < 8"
  shows "central_lists (fst (transfer_blocks s my_cache k))
           (xs(k := drop (min (length (xs k)) 32) (xs k)))"
proof (cases "xs k = []")
  case True
  then have "tc_list (transfer_caches s k) = 0" using central_listsD(1) [OF c k] by simp
  then have "transfer_blocks s my_cache k = (s, my_cache)" by (rule transfer_blocks_empty)
  moreover have "xs(k := drop (min (length (xs k)) 32) (xs k)) = xs" using True by auto
  ultimately show ?thesis using c by simp
next
  case False
  define n where "n = min (length (xs k)) 32"
  define t where "t = xs k ! (n - 1)"
  define s' where "s' = fst (transfer_blocks s my_cache k)"
  note E = transfer_blocks_effect [OF central_listsD(1,2) [OF c k] False, folded n_def, folded t_def]
  have n: "0 < n" "n \<le> length (xs k)" using False unfolding n_def by auto
  have tin: "t \<in> set (xs k)" unfolding t_def using n by (intro nth_mem) auto
  have f: "mem s' = (mem s)(t := 0)" "mapped s' = mapped s"
    "tc_list (transfer_caches s' k) = mem s t"
    "tc_count (transfer_caches s' k) = int (length (xs k)) - int n"
    "\<And>j. j \<noteq> k \<Longrightarrow> transfer_caches s' j = transfer_caches s j"
    unfolding s'_def E(1) by simp_all
  show ?thesis
    unfolding s'_def [symmetric] n_def [symmetric]
  proof (rule central_listsI)
    fix j :: nat assume j: "j < 8"
    show "chain (mem s') (tc_list (transfer_caches s' j)) ((xs(k := drop n (xs k))) j)"
    proof (cases "j = k")
      case True
      then show ?thesis using E(3) by (simp add: f)
    next
      case False
      then have "t \<notin> set (xs j)" using central_listsD(4) [OF c k j] tin by auto
      then show ?thesis
        using central_listsD(1) [OF c j] False by (simp add: f chain_update)
    qed
    show "tc_count (transfer_caches s' j) = int (length ((xs(k := drop n (xs k))) j))"
      using central_listsD(2) [OF c j] n by (cases "j = k") (simp_all add: f)
  next
    fix j x assume j: "j < 8" and x: "x \<in> set ((xs(k := drop n (xs k))) j)"
    then have "x \<in> set (xs j)" by (cases "j = k") (auto dest: in_set_dropD)
    then show "drop_bit PAGE_SHIFT x \<in> mapped s'"
      using central_listsD(3) [OF c j] by (simp add: f)
  next
    fix i j :: nat assume ij: "i < 8" "j < 8" "i \<noteq> j"
    have "set ((xs(k := drop n (xs k))) i) \<subseteq> set (xs i)"
      "set ((xs(k := drop n (xs k))) j) \<subseteq> set (xs j)"
      by (auto dest: in_set_dropD)
    then show "set ((xs(k := drop n (xs k))) i) \<inter> set ((xs(k := drop n (xs k))) j) = {}"
      using central_listsD(4) [OF c ij(2,1,3)] by blast
  qed
qed


lemma allocateSpan_frame:
  "mem (snd (allocateSpan s n r)) = mem s"
  "transfer_caches (snd (allocateSpan s n r)) = transfer_caches s"
  by (auto simp: allocateSpan_def mmap_def munmap_def allocate_span_memory_def Let_def
           split: option.splits prod.splits if_splits)

lemma central_lists_cong:
  assumes "central_lists s xs" "mem s' = mem s" "transfer_caches s' = transfer_caches s"
    "mapped s \<subseteq> mapped s'"
  shows "central_lists s' xs"
  using assms unfolding central_lists_def by auto


lemma refill_lists:
  assumes c: "central_lists s xs" and k: "k < 8"
    and z: "tc_count (transfer_caches s k) = 0"
    and os: "mmap_result_ok s (push_bit PAGE_SHIFT 1) (Some a)"
    and pool: "span_offset s + sizeof_Span \<le> sizeof_span_memory"
  shows "\<exists>xs'. central_lists (fst (fetchFromTransferCache s my_cache k (Some a))) xs'"
proof -
  from os have al: "a AND 4095 = 0" and nz: "a \<noteq> 0" and nw: "unat a + 4096 \<le> 2 ^ 64"
    and fresh: "drop_bit PAGE_SHIFT a \<notin> mapped s"
    unfolding mmap_result_ok_def one_page_len by (simp_all add: pages_of_4096)
  have "xs k = []" using central_listsD(2) [OF c k] z by simp
  then have e: "tc_list (transfer_caches s k) = 0" using central_listsD(1) [OF c k] by simp
  define bs where "bs = getClassSizeFromIndex k + sizeof_BlockHeader"
  define n where "n = 4096 div unat bs"
  define blocks where "blocks = rev (map (block_at a bs) [0 ..< n])"
  define m1 where "m1 = fst (carve a bs n (mem s, 0))"
  define s2 where "s2 = s\<lparr>mapped := mapped s \<union> pages_of a (push_bit PAGE_SHIFT 1),
              span_offset := span_offset s + sizeof_Span,
              spans := (spans s)(span_offset s :=
                 \<lparr>start_page_id = drop_bit PAGE_SHIFT a, num_pages = 1,
                  next_span = None, prev_span = None, is_free = False\<rparr>),
              page_map := (page_map s)(drop_bit PAGE_SHIFT a \<mapsto> span_offset s),
              mem := m1,
              transfer_caches := (transfer_caches s)(k :=
                 (transfer_caches s k)\<lparr>tc_list := hd blocks, tc_count := int n\<rparr>)\<rparr>"
  note F = fetch_refill [OF k e z al nz nw pool, folded bs_def, folded n_def, folded blocks_def,
      folded m1_def, folded s2_def]
  have bpos: "0 < unat bs" using block_size_bounds(1) [OF k] unfolding bs_def by simp
  have f: "mem s2 = m1" "mapped s2 = mapped s \<union> {drop_bit PAGE_SHIFT a}"
    "tc_list (transfer_caches s2 k) = hd blocks" "tc_count (transfer_caches s2 k) = int n"
    "\<And>j. j \<noteq> k \<Longrightarrow> transfer_caches s2 j = transfer_caches s j"
    unfolding s2_def pages_of_one_page by simp_all
  have bset: "set blocks = block_at a bs ` {0 ..< n}" unfolding blocks_def by auto
  have bpage: "\<And>x. x \<in> set blocks \<Longrightarrow> drop_bit PAGE_SHIFT x = drop_bit PAGE_SHIFT a"
    unfolding bset n_def using blocks_in_page(2) [OF al nw nz bpos] by auto
  have old: "\<And>j x. j < 8 \<Longrightarrow> x \<in> set (xs j) \<Longrightarrow> x \<notin> set blocks"
    using central_listsD(3) [OF c] bpage fresh by metis
  have "central_lists s2 (xs(k := blocks))"
  proof (rule central_listsI)
    fix j :: nat assume j: "j < 8"
    show "chain (mem s2) (tc_list (transfer_caches s2 j)) ((xs(k := blocks)) j)"
    proof (cases "j = k")
      case True
      then show ?thesis using F(2) by (simp add: f)
    next
      case False
      have "chain m1 (tc_list (transfer_caches s j)) (xs j) = chain (mem s) (tc_list (transfer_caches s j)) (xs j)"
        using F(3) old [OF j] unfolding bset by (intro chain_frame) blast
      then show ?thesis using central_listsD(1) [OF c j] False by (simp add: f)
    qed
    show "tc_count (transfer_caches s2 j) = int (length ((xs(k := blocks)) j))"
      using central_listsD(2) [OF c j] F(5) by (cases "j = k") (simp_all add: f)
  next
    fix j x assume j: "j < 8" and x: "x \<in> set ((xs(k := blocks)) j)"
    show "drop_bit PAGE_SHIFT x \<in> mapped s2"
    proof (cases "j = k")
      case True
      with x bpage show ?thesis by (simp add: f)
    next
      case False
      with x central_listsD(3) [OF c j] show ?thesis by (simp add: f)
    qed
  next
    fix i j :: nat assume ij: "i < 8" "j < 8" "i \<noteq> j"
    show "set ((xs(k := blocks)) i) \<inter> set ((xs(k := blocks)) j) = {}"
      using central_listsD(4) [OF c ij(2,1,3)] old [OF ij(1)] old [OF ij(2)] ij(3)
      by (cases "i = k"; cases "j = k") auto
  qed
  from transfer_blocks_lists [OF this k, of my_cache]
  show ?thesis unfolding F(1) by blast
qed


lemma fetch_preserves_transfer_inv:
  assumes inv: "transfer_inv s" and os: "mmap_result_ok s (push_bit PAGE_SHIFT 1) r"
  shows "transfer_inv (fst (fetchFromTransferCache s my_cache k r))"
proof -
  from inv obtain xs where c: "central_lists s xs" unfolding transfer_inv_iff ..
  consider (out) "\<not> k < 8" | (stock) "k < 8" "tc_count (transfer_caches s k) \<noteq> 0"
    | (refill) "k < 8" "tc_count (transfer_caches s k) = 0" by blast
  then show ?thesis
  proof cases
    case out
    then show ?thesis using inv by (simp add: fetchFromTransferCache_def)
  next
    case stock
    then have "fetchFromTransferCache s my_cache k r = transfer_blocks s my_cache k"
      by (simp add: fetchFromTransferCache_def Let_def)
    then show ?thesis
      using transfer_blocks_lists [OF c stock(1), of my_cache] central_lists_inv by simp
  next
    case refill
    show ?thesis
    proof (cases rule: allocateSpan_cases [of s 1 r])
      case failed
      define s1 where "s1 = snd (allocateSpan s 1 r)"
      obtain x where x: "allocateSpan s 1 r = (None, x)"
        using failed(1) by (cases "allocateSpan s 1 r") auto
      have xs1: "x = s1" unfolding s1_def x by simp
      have f: "fetchFromTransferCache s my_cache k r = (s1, my_cache)"
        using refill class_size_nonzero [OF refill(1)] x unfolding xs1
        by (simp add: fetchFromTransferCache_def Let_def)
      have m: "mapped s \<subseteq> mapped s1"
      proof -
        { fix a assume r: "r = Some a"
            and e: "mapped s1 = (mapped s \<union> pages_of a (push_bit PAGE_SHIFT 1)) - pages_of a (push_bit PAGE_SHIFT 1)"
          from os r have "pages_of a (push_bit PAGE_SHIFT 1) \<inter> mapped s = {}"
            by (simp add: mmap_result_ok_def)
          with e have "mapped s \<subseteq> mapped s1" by blast }
        with failed(5) show ?thesis unfolding s1_def by blast
      qed
      have "central_lists s1 xs"
        using c allocateSpan_frame [of s 1 r] m unfolding s1_def [symmetric]
        by (rule central_lists_cong)
      then show ?thesis unfolding f by (simp add: central_lists_inv)
    next
      case (ok a)
      from refill_lists [OF c refill os [unfolded ok(1)] ok(3), of my_cache]
      show ?thesis unfolding ok(1) using central_lists_inv by blast
    qed
  qed
qed

lemma release_preserves_transfer_inv:
  assumes inv: "transfer_inv s" and b: "batch_ok s my_cache k"
  shows "transfer_inv (fst (releaseToTransferCache s my_cache k))"
proof (cases "k \<ge> 8 \<or> list_lengths my_cache k = 0")
  case True
  then show ?thesis using inv by (auto simp: releaseToTransferCache_def)
next
  case False
  then have k: "k < 8" and lz: "list_lengths my_cache k \<noteq> 0" by auto
  define xs where "xs = central_blocks s"
  define ys where "ys = cached_blocks s my_cache k"
  have c: "central_lists s xs" unfolding xs_def using inv by (rule inv_central_lists)
  from b have pos: "0 \<le> list_lengths my_cache k"
    and cy: "chain (mem s) (free_lists my_cache k) ys"
    and pg: "\<And>x. x \<in> set ys \<Longrightarrow> drop_bit PAGE_SHIFT x \<in> mapped s"
    and dj: "\<And>j. j < 8 \<Longrightarrow> set ys \<inter> set (xs j) = {}"
    unfolding batch_ok_def ys_def xs_def cached_blocks_def by (auto simp: has_length_chain)
  have len: "list_lengths my_cache k = int (length ys)"
    unfolding ys_def cached_blocks_def using pos by simp
  have ne: "ys \<noteq> []" using len lz by auto
  define s' where "s' = fst (releaseToTransferCache s my_cache k)"
  note E = release_effect [OF k cy len ne central_listsD(1) [OF c k] dj [OF k]]
  have f: "mem s' = (mem s)(last ys := tc_list (transfer_caches s k))" "mapped s' = mapped s"
    "tc_list (transfer_caches s' k) = hd ys"
    "tc_count (transfer_caches s' k) = tc_count (transfer_caches s k) + int (length ys)"
    "\<And>j. j \<noteq> k \<Longrightarrow> transfer_caches s' j = transfer_caches s j"
    unfolding s'_def E(1) by simp_all
  have lin: "last ys \<in> set ys" using ne by simp
  have "central_lists s' (xs(k := ys @ xs k))"
  proof (rule central_listsI)
    fix j :: nat assume j: "j < 8"
    show "chain (mem s') (tc_list (transfer_caches s' j)) ((xs(k := ys @ xs k)) j)"
    proof (cases "j = k")
      case True
      then show ?thesis using E(2) by (simp add: f)
    next
      case False
      have "last ys \<notin> set (xs j)" using dj [OF j] lin by auto
      then show ?thesis using central_listsD(1) [OF c j] False by (simp add: f chain_update)
    qed
    show "tc_count (transfer_caches s' j) = int (length ((xs(k := ys @ xs k)) j))"
      using central_listsD(2) [OF c j] by (cases "j = k") (simp_all add: f)
  next
    fix j x assume j: "j < 8" and x: "x \<in> set ((xs(k := ys @ xs k)) j)"
    then have "x \<in> set ys \<or> x \<in> set (xs j)" by (cases "j = k") auto
    then show "drop_bit PAGE_SHIFT x \<in> mapped s'"
      using pg central_listsD(3) [OF c j] by (auto simp: f)
  next
    fix i j :: nat assume ij: "i < 8" "j < 8" "i \<noteq> j"
    show "set ((xs(k := ys @ xs k)) i) \<inter> set ((xs(k := ys @ xs k)) j) = {}"
      using central_listsD(4) [OF c ij(2,1,3)] dj [OF ij(1)] dj [OF ij(2)] ij(3)
      by (cases "i = k"; cases "j = k") auto
  qed
  then show ?thesis unfolding s'_def by (rule central_lists_inv)
qed

lemma initial_transfer_inv: "transfer_inv (initial_allocator m)"
  by (simp add: transfer_inv_def count_ok_def central_blocks_def initial_allocator_def)

lemma transfer_inv_count: "transfer_inv s \<Longrightarrow> k < 8 \<Longrightarrow> count_ok (mem s) (transfer_caches s k)"
  by (simp add: transfer_inv_def)

lemma refill_example_facts:
  "mmap_result_ok (initial_allocator scavenge_store) (push_bit PAGE_SHIFT 1) (Some 4096)"
  "chain (mem (fst refill_example)) (free_lists (snd refill_example) 7) [6160, 5128, 4096]"
  "list_lengths (snd refill_example) 7 = 3"
  "\<forall>j. tc_count (transfer_caches (fst refill_example) j) = 0"
  "mapped (fst refill_example) = {1}"
proof -
  let ?s = "initial_allocator scavenge_store"
  have k: "(7 :: nat) < 8" by simp
  have e: "tc_list (transfer_caches ?s 7) = 0" "tc_count (transfer_caches ?s 7) = 0"
    by (simp_all add: initial_allocator_def)
  show os: "mmap_result_ok ?s (push_bit PAGE_SHIFT 1) (Some 4096)"
    unfolding mmap_result_ok_def one_page_len by (simp add: initial_allocator_def)
  have pool: "span_offset ?s + sizeof_Span \<le> sizeof_span_memory"
    by (simp add: initial_allocator_def sizeof_Span_def sizeof_span_memory_def)
  have bs: "getClassSizeFromIndex 7 + sizeof_BlockHeader = 1032"
    by (simp add: getClassSizeFromIndex_simps sizeof_BlockHeader_def)
  have n: "max 1 (4096 div unat (1032 :: 64 word)) = 3" by simp
  have "[0 ..< Suc (Suc (Suc 0))] = [0, 1, 2]" by simp
  then have up: "[0 ..< 3] = [0, 1, 2]" by (simp add: numeral_3_eq_3)
  have blocks: "rev (map (block_at 4096 1032) [0 ..< 3]) = [6160, 5128, 4096]"
    unfolding up by (simp add: block_at_def)
  have mv: "min (3 :: nat) 32 = 3" by simp
  have sf: "mapped ?s = {}" "drop_bit PAGE_SHIFT (4096 :: 64 word) = 1"
    "\<And>j. tc_count (transfer_caches ?s j) = 0"
    by (simp_all add: initial_allocator_def PAGE_SHIFT_def drop_bit_eq_div)
  note R = refill_effect [OF k e os pool, of initial_cache,
      folded refill_example_def, unfolded bs n blocks mv sf case_prod_unfold]
  show "chain (mem (fst refill_example)) (free_lists (snd refill_example) 7) [6160, 5128, 4096]"
    "list_lengths (snd refill_example) 7 = 3"
    "mapped (fst refill_example) = {1}"
    using R by auto
  show "\<forall>j. tc_count (transfer_caches (fst refill_example) j) = 0"
  proof
    fix j show "tc_count (transfer_caches (fst refill_example) j) = 0"
      using R sf(3) [of j] by (cases "j = 7") auto
  qed
qed

text \<open>
  Claim C7. For every size class the transfer cache's count equals the number of
  blocks on its list (\<open>count_ok\<close>), as part of \<open>transfer_inv\<close>: it holds in the
  initial state and is preserved by \<open>fetchFromTransferCache\<close> (the refill from the
  page heap and the transfer to the thread cache), given an answer of \<open>mmap\<close> that the
  kernel can give, and by \<open>releaseToTransferCache\<close> (the release of a thread
  cache's list), given that this list is a proper list of \<open>list_lengths\<close> blocks
  that are not on a central list already.
\<close>

theorem transfer_count_invariant:
  "transfer_inv (initial_allocator m0)
   \<and> (transfer_inv s \<longrightarrow> (\<forall>j<8. count_ok (mem s) (transfer_caches s j)))
   \<and> (transfer_inv s \<and> mmap_result_ok s (push_bit PAGE_SHIFT 1) r \<longrightarrow>
        transfer_inv (fst (fetchFromTransferCache s my_cache k r)))
   \<and> (transfer_inv s \<and> batch_ok s my_cache k \<longrightarrow>
        transfer_inv (fst (releaseToTransferCache s my_cache k)))"
  using initial_transfer_inv transfer_inv_count fetch_preserves_transfer_inv
    release_preserves_transfer_inv by blast

theorem transfer_count_invariant_witness:
  "mmap_result_ok (initial_allocator scavenge_store) (push_bit PAGE_SHIFT 1) (Some 4096)
   \<and> transfer_inv (fst refill_example)
   \<and> batch_ok (fst refill_example) (snd refill_example) 7
   \<and> list_lengths (snd refill_example) 7 = 3
   \<and> transfer_inv (fst (releaseToTransferCache (fst refill_example) (snd refill_example) 7))
   \<and> count_ok (mem (fst (releaseToTransferCache (fst refill_example) (snd refill_example) 7)))
        (transfer_caches (fst (releaseToTransferCache (fst refill_example) (snd refill_example) 7)) 7)
   \<and> tc_count (transfer_caches
        (fst (releaseToTransferCache (fst refill_example) (snd refill_example) 7)) 7) = 3"
proof -
  let ?s0 = "initial_allocator scavenge_store"
  let ?s1 = "fst refill_example" and ?c1 = "snd refill_example"
  note F = refill_example_facts
  have i0: "transfer_inv ?s0"
    using transfer_count_invariant [of scavenge_store ?s0 "Some 4096" initial_cache 7] by blast
  have i1: "transfer_inv ?s1"
    using transfer_count_invariant [of scavenge_store ?s0 "Some 4096" initial_cache 7] i0 F(1)
    unfolding refill_example_def by blast
  have L: "length [6160, 5128, 4096 :: 64 word] = 3" by simp
  have w: "walk (mem ?s1) (free_lists ?c1 7) 3 = [6160, 5128, 4096]"
    using walk_chain [OF F(2)] unfolding L .
  have "has_length (mem ?s1) (free_lists ?c1 7) (length [6160, 5128, 4096 :: 64 word])"
    using F(2) by (simp only: chain_iff_walk)
  then have h: "has_length (mem ?s1) (free_lists ?c1 7) 3" unfolding L .
  have cb: "\<And>j. central_blocks ?s1 j = []"
    unfolding central_blocks_def using F(4) by simp
  have pg: "drop_bit PAGE_SHIFT (6160 :: 64 word) = 1" "drop_bit PAGE_SHIFT (5128 :: 64 word) = 1"
    "drop_bit PAGE_SHIFT (4096 :: 64 word) = 1"
    by (simp_all add: PAGE_SHIFT_def drop_bit_eq_div)
  have b: "batch_ok ?s1 ?c1 7"
    unfolding batch_ok_def cached_blocks_def F(3) cb using h w by (simp add: F(5) pg)
  let ?s2 = "fst (releaseToTransferCache ?s1 ?c1 7)"
  have i2: "transfer_inv ?s2"
    using transfer_count_invariant [of scavenge_store ?s1 None ?c1 7] i1 b by blast
  have c2: "count_ok (mem ?s2) (transfer_caches ?s2 7)"
    using transfer_count_invariant [of scavenge_store ?s2 None ?c1 7] i2 by simp
  have "tc_count (transfer_caches ?s2 7) = tc_count (transfer_caches ?s1 7) + list_lengths ?c1 7"
    by (rule release_counts(3)) (simp_all add: F(3))
  then have t: "tc_count (transfer_caches ?s2 7) = 3" using F(3,4) by simp
  show ?thesis using F(1,3) i1 b i2 c2 t by blast
qed

end
